theory Spec2Isabelle
  imports Complex_Main "HOL-Library.AList" "HOL-Library.Log_Nat"
begin

text \<open>
  A shallow embedding of the timeline engine of pixi-anime: the class \<open>Movie\<close> with its
  lazy resolution of a keyframe list (\<open>getElementState\<close>, \<open>interpolate\<close>) and its eager
  precomputation of a dense table (\<open>_precalculateFrames\<close>, \<open>updateFrame\<close>), and the class
  \<open>MovieRenderer\<close> with its playback clock (\<open>play\<close>, \<open>pause\<close>, \<open>seek\<close>, \<open>update\<close>) and the
  audio branch of \<open>renderFrame\<close>. Loading of assets and drawing are left out.
\<close>

section \<open>Data model\<close>

text \<open>
  A JavaScript number: a finite double, given by its exact rational value, an infinity or
  \<open>NaN\<close>. The two zeros of IEEE arithmetic are one value. The interpolation of property
  values is computed in double precision, with rounding and overflow (section
  ``Double precision arithmetic''). Frame numbers, the frame rate, the duration and the
  clock's position are finite numbers, and the clock and the audio window compute on them
  exactly, giving \<open>NaN\<close> or an infinity only for a remainder or a quotient by zero.
\<close>

datatype jsnum = Finite rat | PosInfinity | NegInfinity | NaN

text \<open>
  The value of a keyframe property (\<open>[key: string]: any\<close>). The code only asks whether
  a value is a number (\<open>typeof v === 'number'\<close>, true of \<open>NaN\<close> and the infinities as well)
  and whether it is \<open>undefined\<close>. \<open>JNum x\<close> is the finite number \<open>x\<close>.
\<close>

datatype jsval = JNumber jsnum | JStr string | JBool bool | JNull | JUndefined

abbreviation JNum :: "rat \<Rightarrow> jsval" where
  "JNum x \<equiv> JNumber (Finite x)"

text \<open>
  \<open>interface Frame\<close>: the required numeric field \<open>frame\<close>, and the other own properties of
  the object in insertion order. The property \<open>frame\<close> lives in the field only: the read
  \<open>getp\<close> below never looks for it in \<open>props\<close>.
\<close>

record Frame =
  frame :: rat
  props :: "(string \<times> jsval) list"

datatype ElementType = ImageType | TextType | AudioType

text \<open>
  \<open>ElementBase\<close> with the fields of \<open>AudioElement\<close> that the renderer reads; \<open>None\<close> is an
  absent optional field.
\<close>

record MovieElement =
  elem_id :: string
  elem_type :: ElementType
  frames :: "Frame list"
  startFrame :: "rat option"
  endFrame :: "rat option"

record Movie =
  elements :: "MovieElement list"
  duration :: rat
  width :: rat
  height :: rat
  loop :: bool
  fps :: rat

text \<open>
  \<open>MovieRenderer\<close>: the playback state. The field \<open>ticker\<close> says whether \<open>update\<close> is
  registered with \<open>app.ticker\<close>, which calls a registered listener once per tick.
\<close>

record MovieRenderer =
  isPlaying :: bool
  currentFrame :: jsnum
  ticker :: bool

text \<open>
  \<open>HTMLAudioElement\<close>: the two attributes that the renderer reads and writes. What the
  browser does with them (loading, refusing to start, clamping a seek to the length of the
  resource) is outside the model.
\<close>

record HTMLAudioElement =
  paused :: bool
  currentTime :: rat

datatype error = TypeError

section \<open>Double precision arithmetic\<close>

text \<open>
  The arithmetic of IEEE 754 binary64 on \<open>jsnum\<close>. \<open>binade x\<close> is the exponent \<open>e\<close> with
  \<open>2 ^ e \<le> |x| < 2 ^ (e + 1)\<close>. \<open>round_double x\<close> is the multiple of \<open>2 ^ (e - 52)\<close>, or of
  \<open>2 ^ (- 1074)\<close> for a subnormal result, that is nearest to \<open>x\<close>, ties to the even
  multiple; a result of magnitude \<open>2 ^ 1024\<close> or more is an infinity. Each operation rounds
  the exact result of finite operands, and follows the rules of IEEE arithmetic for
  infinities and \<open>NaN\<close>; a zero divisor counts as a positive zero.
\<close>

definition round_half_even :: "rat \<Rightarrow> int" where
  "round_half_even x =
     (let f = \<lfloor>x\<rfloor>; r = x - of_int f
      in if r < 1 / 2 then f else if 1 / 2 < r then f + 1 else if even f then f else f + 1)"

definition binade :: "rat \<Rightarrow> int" where
  "binade x =
     (let (p, q) = quotient_of \<bar>x\<bar>;
          e0 = bitlen p - bitlen q
      in if 2 powi e0 \<le> \<bar>x\<bar> then e0 else e0 - 1)"

definition round_double :: "rat \<Rightarrow> jsnum" where
  "round_double x =
     (if x = 0 then Finite 0
      else
        let u = 2 powi max (binade x - 52) (- 1074);
            y = of_int (round_half_even (x / u)) * u
        in if 2 ^ 1024 \<le> \<bar>y\<bar> then (if 0 < x then PosInfinity else NegInfinity)
           else Finite y)"

fun dbl_neg :: "jsnum \<Rightarrow> jsnum" where
  "dbl_neg (Finite a) = Finite (- a)"
| "dbl_neg PosInfinity = NegInfinity"
| "dbl_neg NegInfinity = PosInfinity"
| "dbl_neg NaN = NaN"

fun dbl_add :: "jsnum \<Rightarrow> jsnum \<Rightarrow> jsnum" where
  "dbl_add (Finite a) (Finite b) = round_double (a + b)"
| "dbl_add NaN y = NaN"
| "dbl_add x NaN = NaN"
| "dbl_add PosInfinity NegInfinity = NaN"
| "dbl_add NegInfinity PosInfinity = NaN"
| "dbl_add (Finite a) y = y"
| "dbl_add x y = x"

definition dbl_sub :: "jsnum \<Rightarrow> jsnum \<Rightarrow> jsnum" where
  "dbl_sub x y = dbl_add x (dbl_neg y)"

definition signed_infinity :: "bool \<Rightarrow> jsnum" where
  "signed_infinity positive = (if positive then PosInfinity else NegInfinity)"

fun dbl_mul :: "jsnum \<Rightarrow> jsnum \<Rightarrow> jsnum" where
  "dbl_mul (Finite a) (Finite b) = round_double (a * b)"
| "dbl_mul NaN y = NaN"
| "dbl_mul x NaN = NaN"
| "dbl_mul (Finite a) y = (if a = 0 then NaN else signed_infinity ((0 < a) = (y = PosInfinity)))"
| "dbl_mul x (Finite b) = (if b = 0 then NaN else signed_infinity ((0 < b) = (x = PosInfinity)))"
| "dbl_mul x y = signed_infinity (x = y)"

fun dbl_div :: "jsnum \<Rightarrow> jsnum \<Rightarrow> jsnum" where
  "dbl_div (Finite a) (Finite b) =
     (if b \<noteq> 0 then round_double (a / b)
      else if a = 0 then NaN else signed_infinity (0 < a))"
| "dbl_div NaN y = NaN"
| "dbl_div x NaN = NaN"
| "dbl_div (Finite a) y = Finite 0"
| "dbl_div x (Finite b) = signed_infinity ((0 \<le> b) = (x = PosInfinity))"
| "dbl_div x y = NaN"

text \<open>A finite number, and a finite number that is a double.\<close>

fun is_finite :: "jsnum \<Rightarrow> bool" where
  "is_finite (Finite a) = True"
| "is_finite x = False"

fun finite_double :: "jsnum \<Rightarrow> bool" where
  "finite_double (Finite a) = (round_double a = Finite a)"
| "finite_double x = False"

section \<open>Objects\<close>

text \<open>\<open>Object.keys(o)\<close>\<close>

definition keys :: "Frame \<Rightarrow> string list" where
  "keys ob = ''frame'' # map fst (props ob)"

text \<open>The property read \<open>o[key]\<close>: an absent property reads as \<open>undefined\<close>.\<close>

definition getp :: "Frame \<Rightarrow> string \<Rightarrow> jsval" where
  "getp ob key =
     (if key = ''frame'' then JNum (frame ob)
      else case map_of (props ob) key of None \<Rightarrow> JUndefined | Some v \<Rightarrow> v)"

text \<open>
  The assignment \<open>o[key] = v\<close> for a key other than \<open>frame\<close>: an existing property keeps
  its place, a new one goes last.
\<close>

definition setp :: "Frame \<Rightarrow> string \<Rightarrow> jsval \<Rightarrow> Frame" where
  "setp ob key v = ob\<lparr>props := AList.update key v (props ob)\<rparr>"

text \<open>\<open>Set.prototype.add\<close> and \<open>new Set(iterable)\<close>, a set in insertion order.\<close>

definition set_add :: "'a \<Rightarrow> 'a list \<Rightarrow> 'a list" where
  "set_add x s = (if x \<in> set s then s else s @ [x])"

definition new_Set :: "'a list \<Rightarrow> 'a list" where
  "new_Set xs = fold set_add xs []"

fun is_number :: "jsval \<Rightarrow> bool" where
  "is_number (JNumber _) = True"
| "is_number _ = False"

section \<open>Lazy resolution: \<open>Movie.interpolate\<close> and \<open>Movie.getElementState\<close>\<close>

text \<open>
  \<open>[...frames].sort((a, b) => a.frame - b.frame)\<close>: a sort of a copy, stable as
  \<open>Array.prototype.sort\<close> is since ECMAScript 2019.
\<close>

definition sortFrames :: "Frame list \<Rightarrow> Frame list" where
  "sortFrames fs = sort_key frame fs"

text \<open>
  The scan for the surrounding keyframes, from index \<open>i\<close>. The two variables hold
  indices into the sorted array, and the test \<open>prevFrame === nextFrame\<close>, an identity of
  objects, is the equality of the indices: two different indices that the scan returns
  hold keyframes of different frames (lemma \<open>scan_bounds\<close>), so different objects.
\<close>

function scan :: "Frame list \<Rightarrow> rat \<Rightarrow> nat \<Rightarrow> nat \<Rightarrow> nat \<Rightarrow> nat \<times> nat" where
  "scan sortedFrames targetFrame i prev next =
     (if i < length sortedFrames then
        (if frame (sortedFrames ! i) \<le> targetFrame
         then scan sortedFrames targetFrame (Suc i) i next
         else (prev, i))
      else (prev, next))"
  by pat_completeness auto
termination
  by (relation "measure (\<lambda>(s, t, i, p, n). length s - i)") auto

declare scan.simps [simp del]

text \<open>The body of \<open>keys.forEach\<close> in \<open>interpolate\<close>.\<close>

definition lerp_key :: "Frame \<Rightarrow> Frame \<Rightarrow> jsnum \<Rightarrow> string \<Rightarrow> Frame \<Rightarrow> Frame" where
  "lerp_key prevFrame nextFrame ratio key result =
     (if key = ''frame'' then result
      else
        (case (getp prevFrame key, getp nextFrame key) of
           (JNumber v1, JNumber v2) \<Rightarrow>
             setp result key (JNumber (dbl_add v1 (dbl_mul (dbl_sub v2 v1) ratio)))
         | (v1, _) \<Rightarrow> if v1 \<noteq> JUndefined then setp result key v1 else result))"

text \<open>
  \<open>{ ...prevFrame, frame: targetFrame }\<close> is the record update of the field \<open>frame\<close>. Where
  the ratio is computed, \<open>prevFrame.frame \<le> targetFrame < nextFrame.frame\<close> holds (lemma
  \<open>scan_bounds\<close>): the divisor is the rounded difference of two different frames.
\<close>

definition interpolate :: "Frame list \<Rightarrow> rat \<Rightarrow> Frame" where
  "interpolate fs targetFrame =
     (let sortedFrames = sortFrames fs in
      if length sortedFrames = 0 then \<lparr>frame = targetFrame, props = []\<rparr>
      else
        let (p, n) = scan sortedFrames targetFrame 0 0 (length sortedFrames - 1);
            prevFrame = sortedFrames ! p;
            nextFrame = sortedFrames ! n
        in
          if p = n then prevFrame\<lparr>frame := targetFrame\<rparr>
          else if targetFrame < frame prevFrame then prevFrame\<lparr>frame := targetFrame\<rparr>
          else if targetFrame > frame nextFrame then nextFrame\<lparr>frame := targetFrame\<rparr>
          else
            let ratio = dbl_div (dbl_sub (Finite targetFrame) (Finite (frame prevFrame)))
                                (dbl_sub (Finite (frame nextFrame)) (Finite (frame prevFrame)));
                result = \<lparr>frame = targetFrame, props = []\<rparr>;
                ks = new_Set (keys prevFrame @ keys nextFrame)
            in fold (lerp_key prevFrame nextFrame ratio) ks result)"

definition getElementState :: "Movie \<Rightarrow> string \<Rightarrow> rat \<Rightarrow> Frame option" where
  "getElementState m elementId fr =
     (case List.find (\<lambda>e. elem_id e = elementId) (elements m) of
        None \<Rightarrow> None
      | Some element \<Rightarrow> Some (interpolate (frames element) fr))"

section \<open>Eager precomputation: \<open>Movie._precalculateFrames\<close> and \<open>Movie.updateFrame\<close>\<close>

text \<open>The numeric properties that appear in the keyframes.\<close>

definition collect_keys :: "Frame \<Rightarrow> string list \<Rightarrow> string list" where
  "collect_keys kf propsToInterpolate =
     fold (\<lambda>key s. if key \<noteq> ''frame'' \<and> is_number (getp kf key) then set_add key s else s)
       (keys kf) propsToInterpolate"

definition propsToInterpolate :: "Frame list \<Rightarrow> string list" where
  "propsToInterpolate keyframes = fold collect_keys keyframes []"

text \<open>The body of \<open>propsToInterpolate.forEach\<close>.\<close>

definition lerp_prop :: "Frame \<Rightarrow> Frame \<Rightarrow> jsnum \<Rightarrow> string \<Rightarrow> Frame \<Rightarrow> Frame" where
  "lerp_prop prev next ratio prop interpolatedFrame =
     (case (getp prev prop, getp next prop) of
        (JNumber v1, JNumber v2) \<Rightarrow>
          setp interpolatedFrame prop (JNumber (dbl_add v1 (dbl_mul (dbl_sub v2 v1) ratio)))
      | _ \<Rightarrow> interpolatedFrame)"

text \<open>The entry that one round of the loop over \<open>f\<close> pushes to \<open>fullFrames\<close>.\<close>

definition frame_at :: "Frame list \<Rightarrow> string list \<Rightarrow> rat \<Rightarrow> Frame" where
  "frame_at keyframes ps f =
     (case List.find (\<lambda>k. frame k = f) keyframes of
        Some exact \<Rightarrow> exact
      | None \<Rightarrow>
          let (p, n) = scan keyframes f 0 0 (length keyframes - 1);
              prev = keyframes ! p;
              next = keyframes ! n
          in
            if f < frame prev then prev\<lparr>frame := f\<rparr>
            else if f > frame next then next\<lparr>frame := f\<rparr>
            else if p = n then prev\<lparr>frame := f\<rparr>
            else
              let ratio = dbl_div (dbl_sub (Finite f) (Finite (frame prev)))
                                  (dbl_sub (Finite (frame next)) (Finite (frame prev)));
                  interpolatedFrame = prev\<lparr>frame := f\<rparr>
              in fold (lerp_prop prev next ratio) ps interpolatedFrame)"

text \<open>
  \<open>for (let f = 0; f <= this.duration; f++)\<close>. The counter is a natural number; that a
  double stops growing at \<open>2^53\<close> is not modelled.
\<close>

function precalc_loop ::
  "Frame list \<Rightarrow> string list \<Rightarrow> rat \<Rightarrow> nat \<Rightarrow> Frame list \<Rightarrow> Frame list" where
  "precalc_loop keyframes ps d f fullFrames =
     (if of_nat f \<le> d
      then precalc_loop keyframes ps d (Suc f) (fullFrames @ [frame_at keyframes ps (of_nat f)])
      else fullFrames)"
  by pat_completeness auto
termination
proof (relation "measure (\<lambda>(k, ps, d, f, acc). nat (\<lfloor>d\<rfloor> + 1) - f)")
  show "wf (measure (\<lambda>(k, ps, d, f, acc). nat (\<lfloor>d\<rfloor> + 1) - f))"
    by simp
next
  fix keyframes :: "Frame list" and ps :: "string list" and d :: rat and f :: nat
    and fullFrames :: "Frame list"
  assume "of_nat f \<le> d"
  then have "int f \<le> \<lfloor>d\<rfloor>"
    by (simp add: le_floor_iff)
  then show "((keyframes, ps, d, Suc f, fullFrames @ [frame_at keyframes ps (of_nat f)]),
              (keyframes, ps, d, f, fullFrames))
             \<in> measure (\<lambda>(k, ps, d, f, acc). nat (\<lfloor>d\<rfloor> + 1) - f)"
    by simp
qed

declare precalc_loop.simps [simp del]

text \<open>The body of the loop over the elements.\<close>

definition precalculate_element :: "rat \<Rightarrow> MovieElement \<Rightarrow> MovieElement" where
  "precalculate_element d element =
     (if elem_type element = AudioType then element
      else
        let keyframes = sortFrames (frames element) in
        if length keyframes = 0 then element
        else element\<lparr>frames := precalc_loop keyframes (propsToInterpolate keyframes) d 0 []\<rparr>)"

definition precalculateFrames :: "Movie \<Rightarrow> Movie" where
  "precalculateFrames m = m\<lparr>elements := map (precalculate_element (duration m)) (elements m)\<rparr>"

text \<open>
  The lookup of \<open>updateFrame\<close>, \<open>element.frames.find(f => f.frame === frame)\<close>; \<open>None\<close> is
  \<open>undefined\<close>, for which \<open>updateFrame\<close> applies nothing.
\<close>

definition lookupFrame :: "MovieElement \<Rightarrow> rat \<Rightarrow> Frame option" where
  "lookupFrame element fr = List.find (\<lambda>f. frame f = fr) (frames element)"

section \<open>Playback clock: \<open>MovieRenderer.play\<close>, \<open>pause\<close>, \<open>seek\<close>, \<open>update\<close>\<close>

text \<open>The arithmetic of \<open>update\<close> on a position that may be \<open>NaN\<close> or infinite.\<close>

fun js_add :: "jsnum \<Rightarrow> rat \<Rightarrow> jsnum" where
  "js_add (Finite a) b = Finite (a + b)"
| "js_add x b = x"

fun js_gt :: "jsnum \<Rightarrow> rat \<Rightarrow> bool" where
  "js_gt (Finite a) b = (a > b)"
| "js_gt PosInfinity b = True"
| "js_gt NegInfinity b = False"
| "js_gt NaN b = False"

definition js_trunc :: "rat \<Rightarrow> int" where
  "js_trunc q = (if 0 \<le> q then \<lfloor>q\<rfloor> else \<lceil>q\<rceil>)"

text \<open>
  The remainder \<open>a % b\<close>: it has the sign of the dividend, and is \<open>NaN\<close> for a zero
  divisor or an infinite dividend.
\<close>

fun js_rem :: "jsnum \<Rightarrow> rat \<Rightarrow> jsnum" where
  "js_rem (Finite a) b = (if b = 0 then NaN else Finite (a - b * of_int (js_trunc (a / b))))"
| "js_rem x b = NaN"

fun js_floor :: "jsnum \<Rightarrow> jsnum" where
  "js_floor (Finite a) = Finite (of_int \<lfloor>a\<rfloor>)"
| "js_floor x = x"

definition play :: "MovieRenderer \<Rightarrow> MovieRenderer" where
  "play r = (if isPlaying r then r else r\<lparr>isPlaying := True, ticker := True\<rparr>)"

definition pause :: "MovieRenderer \<Rightarrow> MovieRenderer" where
  "pause r = r\<lparr>isPlaying := False, ticker := False\<rparr>"

text \<open>\<open>seek\<close> and \<open>update\<close> return the new state and the frame they pass to \<open>renderFrame\<close>.\<close>

definition seek :: "MovieRenderer \<Rightarrow> jsnum \<Rightarrow> MovieRenderer \<times> jsnum" where
  "seek r fr = (r\<lparr>currentFrame := fr\<rparr>, fr)"

definition update :: "Movie \<Rightarrow> MovieRenderer \<Rightarrow> rat \<Rightarrow> MovieRenderer \<times> jsnum" where
  "update m r deltaTime =
     (let speed = fps m / 60;
          r1 = r\<lparr>currentFrame := js_add (currentFrame r) (speed * deltaTime)\<rparr>;
          r2 = (if js_gt (currentFrame r1) (duration m) then
                  (if loop m then r1\<lparr>currentFrame := js_rem (currentFrame r1) (duration m)\<rparr>
                   else pause (r1\<lparr>currentFrame := Finite (duration m)\<rparr>))
                else r1)
      in (r2, js_floor (currentFrame r2)))"

text \<open>One tick of \<open>app.ticker\<close>: it calls \<open>update\<close> if and only if it is registered.\<close>

definition tick :: "Movie \<Rightarrow> MovieRenderer \<Rightarrow> rat \<Rightarrow> MovieRenderer" where
  "tick m r deltaTime = (if ticker r then fst (update m r deltaTime) else r)"

section \<open>Audio window: the audio branch of \<open>MovieRenderer.renderFrame\<close>\<close>

text \<open>The quotient \<open>a / b\<close> of two finite numbers.\<close>

definition js_div :: "rat \<Rightarrow> rat \<Rightarrow> jsnum" where
  "js_div a b =
     (if b \<noteq> 0 then Finite (a / b)
      else if a = 0 then NaN
      else if 0 < a then PosInfinity else NegInfinity)"

text \<open>
  \<open>item.play()\<close> clears \<open>paused\<close>; a rejection of the promise it returns is only logged.
  The assignment to \<open>currentTime\<close>, an attribute of type \<open>double\<close>, raises \<open>TypeError\<close>
  for a value that is not finite.
\<close>

definition audio_play :: "HTMLAudioElement \<Rightarrow> HTMLAudioElement" where
  "audio_play item = item\<lparr>paused := False\<rparr>"

definition audio_pause :: "HTMLAudioElement \<Rightarrow> HTMLAudioElement" where
  "audio_pause item = item\<lparr>paused := True\<rparr>"

fun set_currentTime :: "HTMLAudioElement \<Rightarrow> jsnum \<Rightarrow> error + HTMLAudioElement" where
  "set_currentTime item (Finite v) = Inr (item\<lparr>currentTime := v\<rparr>)"
| "set_currentTime item x = Inl TypeError"

text \<open>\<open>Math.abs(item.currentTime - expectedTime) > 0.5\<close>\<close>

fun drift_exceeds :: "rat \<Rightarrow> jsnum \<Rightarrow> bool" where
  "drift_exceeds c (Finite e) = (\<bar>c - e\<bar> > 1 / 2)"
| "drift_exceeds c NaN = False"
| "drift_exceeds c x = True"

definition renderFrame_audio ::
  "Movie \<Rightarrow> bool \<Rightarrow> MovieElement \<Rightarrow> rat \<Rightarrow> HTMLAudioElement \<Rightarrow> error + HTMLAudioElement" where
  "renderFrame_audio m playing element fr item =
     (let start = (case startFrame element of None \<Rightarrow> 0 | Some s \<Rightarrow> s);
          end' = (case endFrame element of None \<Rightarrow> duration m | Some e \<Rightarrow> e)
      in
        if fr \<ge> start \<and> fr < end' then
          (if playing \<and> paused item then
             set_currentTime (audio_play item) (js_div (fr - start) (fps m))
           else if playing \<and> \<not> paused item then
             (let expectedTime = js_div (fr - start) (fps m) in
              if drift_exceeds (currentTime item) expectedTime
              then set_currentTime item expectedTime
              else Inr item)
           else Inr item)
        else
          (if \<not> paused item then Inr ((audio_pause item)\<lparr>currentTime := 0\<rparr>)
           else Inr item))"

text \<open>The keyframe that follows the frame \<open>k\<close> in ascending order, if there is one.\<close>

definition following :: "Frame list \<Rightarrow> rat \<Rightarrow> Frame option" where
  "following fs k = List.find (\<lambda>x. k < frame x) (sortFrames fs)"

text \<open>
  \<open>no_overflow prev next\<close>: the two frames differ after rounding, and every property
  that is a number on both keyframes is a finite double on \<open>prev\<close> with a finite
  difference \<open>v2 - v1\<close>. Then the interpolation formula gives back \<open>v1\<close> at the frame of
  \<open>prev\<close> (lemma \<open>lerp_at_zero\<close>); otherwise it can give \<open>NaN\<close> (lemma
  \<open>interpolate_overflow\<close>). \<open>no_overflow_at fs k\<close> asks this of the last keyframe on the
  frame \<open>k\<close> and the keyframe that follows it, where both exist.
\<close>

definition no_overflow :: "Frame \<Rightarrow> Frame \<Rightarrow> bool" where
  "no_overflow prev next \<longleftrightarrow>
     dbl_sub (Finite (frame next)) (Finite (frame prev)) \<noteq> Finite 0 \<and>
     list_all (\<lambda>key. case (getp prev key, getp next key) of
                 (JNumber a, JNumber b) \<Rightarrow> finite_double a \<and> is_finite (dbl_sub b a)
               | _ \<Rightarrow> True)
       (map fst (props prev))"

definition no_overflow_at :: "Frame list \<Rightarrow> rat \<Rightarrow> bool" where
  "no_overflow_at fs k =
     (case following fs k of
        None \<Rightarrow> True
      | Some nx \<Rightarrow>
          if filter (\<lambda>x. frame x = k) fs = [] then True
          else no_overflow (last (filter (\<lambda>x. frame x = k) fs)) nx)"

section \<open>Example inputs\<close>

text \<open>Concrete elements and movies, on which the theorems below are instantiated.\<close>

definition ex_image :: MovieElement where
  "ex_image = \<lparr>elem_id = ''a'', elem_type = ImageType,
     frames = [\<lparr>frame = 2, props = [(''x'', JNum 4)]\<rparr>, \<lparr>frame = 0, props = [(''x'', JNum 0)]\<rparr>],
     startFrame = None, endFrame = None\<rparr>"

definition ex_audio :: MovieElement where
  "ex_audio = \<lparr>elem_id = ''s'', elem_type = AudioType, frames = [\<lparr>frame = 7, props = []\<rparr>],
     startFrame = Some 30, endFrame = Some 60\<rparr>"

definition ex_frames :: "Frame list" where
  "ex_frames = [\<lparr>frame = 10, props = [(''x'', JNum 100), (''tag'', JStr ''b'')]\<rparr>,
                \<lparr>frame = 4, props = [(''x'', JNum 40)]\<rparr>]"





definition ex_movie :: Movie where
  "ex_movie = \<lparr>elements = [ex_image, ex_audio], duration = 100, width = 640, height = 480,
     loop = True, fps = 60\<rparr>"

definition ex_movie_zero :: Movie where
  "ex_movie_zero = \<lparr>elements = [], duration = 0, width = 640, height = 480, loop = True, fps = 60\<rparr>"

definition ex_movie_once :: Movie where
  "ex_movie_once = \<lparr>elements = [ex_image, ex_audio], duration = 100, width = 640, height = 480,
     loop = False, fps = 30\<rparr>"

definition ex_renderer :: MovieRenderer where
  "ex_renderer = \<lparr>isPlaying = True, currentFrame = Finite 95, ticker = True\<rparr>"

definition ex_item :: HTMLAudioElement where
  "ex_item = \<lparr>paused = True, currentTime = 0\<rparr>"

definition ex_overflow :: "Frame list" where
  "ex_overflow = [\<lparr>frame = 0, props = [(''x'', JNum (2 ^ 1023))]\<rparr>,
                  \<lparr>frame = 10, props = [(''x'', JNum (- (2 ^ 1023)))]\<rparr>]"


section \<open>Properties of the double precision arithmetic\<close>

text \<open>
  \<open>binade\<close> is the exponent it is meant to be; a normal number rounds to a number of
  magnitude at least \<open>2 ^ binade x\<close>, so that a result of magnitude \<open>2 ^ 1024\<close> or more
  overflows and a frame difference of 1 or more does not round to zero. The code equation
  of \<open>round_double\<close> writes \<open>2 ^ 1024\<close> as a numeral.
\<close>

lemma bitlen_powi:
  assumes "0 < k"
  shows "(2::rat) powi (bitlen k - 1) \<le> of_int k" "of_int k < (2::rat) powi bitlen k"
proof -
  have b: "1 \<le> bitlen k"
    using assms by (auto simp: bitlen_alt_def)
  have "(2::int) ^ nat (bitlen k - 1) \<le> k" "k < 2 ^ nat (bitlen k)"
    using bitlen_bounds [OF assms] by simp_all
  then have "(of_int (2 ^ nat (bitlen k - 1)) :: rat) \<le> of_int k" "(of_int k :: rat) < of_int (2 ^ nat (bitlen k))"
    by (simp_all only: of_int_le_iff of_int_less_iff)
  then show "(2::rat) powi (bitlen k - 1) \<le> of_int k" "of_int k < (2::rat) powi bitlen k"
    using b by (simp_all add: power_int_def)
qed

lemma binade_bounds:
  assumes "x \<noteq> 0"
  shows "2 powi binade x \<le> \<bar>x\<bar>" "\<bar>x\<bar> < 2 powi (binade x + 1)"
proof -
  obtain p q where pq: "quotient_of \<bar>x\<bar> = (p, q)"
    by (cases "quotient_of \<bar>x\<bar>") auto
  have q: "0 < q"
    using pq quotient_of_denom_pos by blast
  have x: "\<bar>x\<bar> = of_int p / of_int q"
    using pq quotient_of_div by blast
  have "0 < \<bar>x\<bar>"
    using assms by simp
  then have p: "0 < p"
    using x q by (simp add: zero_less_divide_iff)
  note P = bitlen_powi [OF p] and Q = bitlen_powi [OF q]
  have pos: "(0::rat) < 2 powi k" for k
    by simp
  have lo: "2 powi (bitlen p - bitlen q - 1) \<le> \<bar>x\<bar>"
  proof -
    have "2 powi (bitlen p - 1) / 2 powi bitlen q \<le> (of_int p :: rat) / of_int q"
      using P(1) Q(2) p q by (intro frac_le) simp_all
    moreover have "(2::rat) powi (bitlen p - bitlen q - 1) = 2 powi (bitlen p - 1) / 2 powi bitlen q"
      using power_int_diff [of "2::rat" "bitlen p - 1" "bitlen q"] by (simp add: algebra_simps)
    ultimately show ?thesis
      by (simp add: x)
  qed
  have hi: "\<bar>x\<bar> < 2 powi (bitlen p - bitlen q + 1)"
  proof -
    have "(of_int p :: rat) / of_int q < 2 powi bitlen p / 2 powi (bitlen q - 1)"
      using P(2) Q(1) p q by (intro frac_less) simp_all
    moreover have "(2::rat) powi (bitlen p - bitlen q + 1) = 2 powi bitlen p / 2 powi (bitlen q - 1)"
      using power_int_diff [of "2::rat" "bitlen p" "bitlen q - 1"] by (simp add: algebra_simps)
    ultimately show ?thesis
      by (simp add: x)
  qed
  show "2 powi binade x \<le> \<bar>x\<bar>"
    using lo by (simp add: binade_def pq Let_def)
  show "\<bar>x\<bar> < 2 powi (binade x + 1)"
    using hi by (auto simp: binade_def pq Let_def not_le)
qed

lemma round_half_even_near: "\<bar>of_int (round_half_even y) - y\<bar> \<le> 1 / 2"
proof -
  have "of_int \<lfloor>y\<rfloor> \<le> y" "y < of_int \<lfloor>y\<rfloor> + 1"
    by linarith+
  then show ?thesis
    by (auto simp: round_half_even_def Let_def)
qed

lemma round_half_even_ge: "of_int k \<le> y \<Longrightarrow> k \<le> round_half_even y"
proof -
  assume "of_int k \<le> y"
  then have "k \<le> \<lfloor>y\<rfloor>"
    by (simp add: le_floor_iff)
  then show ?thesis
    by (auto simp: round_half_even_def Let_def)
qed

lemma round_half_even_le: "y \<le> of_int k \<Longrightarrow> round_half_even y \<le> k"
proof -
  assume a: "y \<le> of_int k"
  show ?thesis
  proof (cases "y = of_int k")
    case True
    then show ?thesis
      by (simp add: round_half_even_def)
  next
    case False
    then have "y < of_int k"
      using a by simp
    then have "\<lfloor>y\<rfloor> < k"
      by (simp add: floor_less_iff)
    then show ?thesis
      by (auto simp: round_half_even_def Let_def)
  qed
qed

lemma round_double_zero [simp]: "round_double 0 = Finite 0"
  by (simp add: round_double_def)

lemma round_double_not_NaN [simp]: "round_double x \<noteq> NaN"
  by (simp add: round_double_def Let_def)

lemma round_double_near:
  assumes "round_double x = Finite y"
  shows "\<bar>y - x\<bar> \<le> 2 powi max (binade x - 52) (- 1074) / 2"
proof (cases "x = 0")
  case True
  then show ?thesis
    using assms by simp
next
  case False
  define u :: rat where "u = 2 powi max (binade x - 52) (- 1074)"
  have u: "0 < u"
    by (simp add: u_def)
  have y: "y = of_int (round_half_even (x / u)) * u"
    using assms False by (simp add: round_double_def u_def [symmetric] Let_def split: if_splits)
  have "y - x = (of_int (round_half_even (x / u)) - x / u) * u"
    using u by (simp add: y algebra_simps)
  then have "\<bar>y - x\<bar> = \<bar>of_int (round_half_even (x / u)) - x / u\<bar> * u"
    using u by (simp add: abs_mult)
  also have "\<dots> \<le> 1 / 2 * u"
    using u round_half_even_near [of "x / u"] by (intro mult_right_mono) simp_all
  finally show ?thesis
    by (simp add: u_def)
qed

text \<open>A normal number rounds to a number of its own binade or to the next power of two.\<close>

lemma round_normal_lower:
  assumes "0 < x"
  shows "(2::rat) powi binade x
         \<le> of_int (round_half_even (x / 2 powi (binade x - 52))) * 2 powi (binade x - 52)"
proof -
  define u :: rat where "u = 2 powi (binade x - 52)"
  define c :: int where "c = 2 ^ 52"
  have u: "0 < u"
    by (simp add: u_def)
  have "(2::rat) powi binade x = 2 powi 52 * u"
    using power_int_diff [of "2::rat" "binade x" 52] by (simp add: u_def)
  then have b: "(2::rat) powi binade x = of_int c * u"
    by (simp add: c_def)
  have "2 powi binade x \<le> x"
    using binade_bounds(1) [of x] assms by simp
  then have "of_int c \<le> x / u"
    using u by (simp add: b pos_le_divide_eq)
  then have "c \<le> round_half_even (x / u)"
    by (rule round_half_even_ge)
  then have "(of_int c :: rat) \<le> of_int (round_half_even (x / u))"
    by (simp only: of_int_le_iff)
  then have "of_int c * u \<le> of_int (round_half_even (x / u)) * u"
    using u by (intro mult_right_mono) simp_all
  then show ?thesis
    unfolding b u_def .
qed

lemma round_normal_upper:
  assumes "x < 0"
  shows "of_int (round_half_even (x / 2 powi (binade x - 52))) * 2 powi (binade x - 52)
         \<le> - ((2::rat) powi binade x)"
proof -
  define u :: rat where "u = 2 powi (binade x - 52)"
  define c :: int where "c = 2 ^ 52"
  have u: "0 < u"
    by (simp add: u_def)
  have "(2::rat) powi binade x = 2 powi 52 * u"
    using power_int_diff [of "2::rat" "binade x" 52] by (simp add: u_def)
  then have b: "(2::rat) powi binade x = of_int c * u"
    by (simp add: c_def)
  have "2 powi binade x \<le> - x"
    using binade_bounds(1) [of x] assms by simp
  then have "of_int c \<le> (- x) / u"
    using u unfolding b by (simp only: pos_le_divide_eq)
  then have "x / u \<le> of_int (- c)"
    by simp
  then have "round_half_even (x / u) \<le> - c"
    by (rule round_half_even_le)
  then have "(of_int (round_half_even (x / u)) :: rat) \<le> of_int (- c)"
    by (simp only: of_int_le_iff)
  then have "of_int (round_half_even (x / u)) * u \<le> of_int (- c) * u"
    using u by (intro mult_right_mono) simp_all
  then have "of_int (round_half_even (x / u)) * u \<le> - (of_int c * u)"
    by simp
  then show ?thesis
    unfolding b u_def .
qed

lemma binade_ge:
  assumes "2 powi e \<le> \<bar>x\<bar>"
  shows "e \<le> binade x"
proof (rule ccontr)
  assume "\<not> e \<le> binade x"
  then have "binade x + 1 \<le> e"
    by simp
  then have "(2::rat) powi (binade x + 1) \<le> 2 powi e"
    by (intro power_int_increasing) simp_all
  moreover have "(0::rat) < 2 powi e"
    by simp
  then have "0 < \<bar>x\<bar>"
    using assms by linarith
  then have "x \<noteq> 0"
    by simp
  ultimately show False
    using binade_bounds(2) [of x] assms by simp
qed

text \<open>The magnitude of the rounded value of a normal number is at least \<open>2 ^ binade x\<close>.\<close>

lemma round_normal_abs:
  assumes "x \<noteq> 0"
  shows "(2::rat) powi binade x
         \<le> \<bar>of_int (round_half_even (x / 2 powi (binade x - 52))) * 2 powi (binade x - 52)\<bar>"
proof (cases "0 < x")
  case True
  then show ?thesis
    using round_normal_lower [of x] by linarith
next
  case False
  then have "x < 0"
    using assms by simp
  then show ?thesis
    using round_normal_upper [of x] by linarith
qed

lemma round_double_overflow:
  assumes "2 ^ 1024 \<le> \<bar>x\<bar>"
  shows "round_double x = signed_infinity (0 < x)"
proof -
  have x: "x \<noteq> 0"
    using assms by auto
  have "(2::rat) powi 1024 \<le> \<bar>x\<bar>"
    using assms by simp
  then have e: "1024 \<le> binade x"
    by (rule binade_ge)
  then have m: "max (binade x - 52) (- 1074) = binade x - 52"
    by simp
  have "(2::rat) powi 1024 \<le> 2 powi binade x"
    using e by (intro power_int_increasing) simp_all
  then have "(2::rat) powi 1024
      \<le> \<bar>of_int (round_half_even (x / 2 powi (binade x - 52))) * 2 powi (binade x - 52)\<bar>"
    using round_normal_abs [OF x] by linarith
  then have "(2::rat) ^ 1024
      \<le> \<bar>of_int (round_half_even (x / 2 powi (binade x - 52))) * 2 powi (binade x - 52)\<bar>"
    by simp
  then show ?thesis
    using x unfolding round_double_def m Let_def signed_infinity_def by (simp only: if_True if_False)
qed

lemma round_double_nonzero:
  assumes "1 \<le> \<bar>x\<bar>"
  shows "round_double x \<noteq> Finite 0"
proof -
  have x: "x \<noteq> 0"
    using assms by auto
  have "(2::rat) powi 0 \<le> \<bar>x\<bar>"
    using assms by simp
  then have e: "0 \<le> binade x"
    by (rule binade_ge)
  then have m: "max (binade x - 52) (- 1074) = binade x - 52"
    by simp
  have "(0::rat) < 2 powi binade x"
    by simp
  then have "of_int (round_half_even (x / 2 powi (binade x - 52))) * 2 powi (binade x - 52) \<noteq> (0::rat)"
    using round_normal_abs [OF x] by linarith
  then show ?thesis
    using x by (simp add: round_double_def m Let_def)
qed

lemma double_limit: "(2::rat) ^ 1024 = 179769313486231590772930519078902473361797697894230657273430081157732675805500963132708477322407536021120113879871393357658789768814416622492847430639474124377767893424865485276302219601246094119453082952085005768838150682342462881473913110540827237163350510684586298239947245938479716304835356329624224137216"
  by simp

lemma round_double_code [code]:
  "round_double x =
     (if x = 0 then Finite 0
      else
        let u = 2 powi max (binade x - 52) (- 1074);
            y = of_int (round_half_even (x / u)) * u
        in if 179769313486231590772930519078902473361797697894230657273430081157732675805500963132708477322407536021120113879871393357658789768814416622492847430639474124377767893424865485276302219601246094119453082952085005768838150682342462881473913110540827237163350510684586298239947245938479716304835356329624224137216 \<le> \<bar>y\<bar>
           then (if 0 < x then PosInfinity else NegInfinity)
           else Finite y)"
  unfolding round_double_def double_limit ..

lemma round_double_known_answers:
  "round_double (1 / 10) = Finite (7205759403792794 / 72057594037927936)"
  "dbl_add (round_double (1 / 10)) (round_double (2 / 10)) = Finite (5404319552844596 / 18014398509481984)"
  "round_double (3 / 10) = Finite (5404319552844595 / 18014398509481984)"
  by code_simp+

lemma dbl_sub_self [simp]: "dbl_sub (Finite t) (Finite t) = Finite 0"
  by (simp add: dbl_sub_def)

lemma dbl_sub_finite: "dbl_sub (Finite a) (Finite b) = round_double (a - b)"
  by (simp add: dbl_sub_def)

lemma dbl_div_zero: "d \<noteq> NaN \<Longrightarrow> d \<noteq> Finite 0 \<Longrightarrow> dbl_div (Finite 0) d = Finite 0"
  by (cases d) simp_all

lemma dbl_mul_zero: "is_finite d \<Longrightarrow> dbl_mul d (Finite 0) = Finite 0"
  by (cases d) simp_all

lemma dbl_add_zero: "finite_double a \<Longrightarrow> dbl_add a (Finite 0) = a"
  by (cases a) simp_all

lemma lerp_at_zero:
  assumes "finite_double a" "is_finite (dbl_sub b a)" "dbl_sub (Finite fn) (Finite t) \<noteq> Finite 0"
  shows "dbl_add a (dbl_mul (dbl_sub b a)
           (dbl_div (dbl_sub (Finite t) (Finite t)) (dbl_sub (Finite fn) (Finite t)))) = a"
proof -
  have "dbl_sub (Finite fn) (Finite t) \<noteq> NaN"
    by (simp add: dbl_sub_finite)
  then have "dbl_div (dbl_sub (Finite t) (Finite t)) (dbl_sub (Finite fn) (Finite t)) = Finite 0"
    using assms(3) by (simp add: dbl_div_zero)
  then show ?thesis
    using assms(1,2) by (simp add: dbl_mul_zero dbl_add_zero)
qed

lemma lerp_overflow:
  assumes "2 ^ 1023 \<le> h"
  shows "dbl_add (Finite h) (dbl_mul (dbl_sub (Finite (- h)) (Finite h)) (Finite 0)) = NaN"
proof -
  have "(2::rat) ^ 1024 \<le> \<bar>- h - h\<bar>"
    using assms by simp
  then have "dbl_sub (Finite (- h)) (Finite h) = NegInfinity"
    using assms round_double_overflow [of "- h - h"]
    by (simp add: dbl_sub_finite signed_infinity_def)
  then show ?thesis
    by simp
qed

lemma frames_apart:
  assumes "1 \<le> y - x"
  shows "dbl_sub (Finite y) (Finite x) \<noteq> Finite 0"
  using assms round_double_nonzero [of "y - x"] by (simp add: dbl_sub_finite)

section \<open>Properties of objects and sets of keys\<close>

lemma getp_setp: "getp (setp r k v) key = (if key = k \<and> key \<noteq> ''frame'' then v else getp r key)"
  by (simp add: getp_def setp_def update_conv')

lemma frame_setp: "frame (setp r k v) = frame r"
  by (simp add: setp_def)

lemma getp_frame_update:
  "getp (r\<lparr>frame := t\<rparr>) key = (if key = ''frame'' then JNum t else getp r key)"
  by (simp add: getp_def)

lemma set_fold_set_add: "set (fold set_add xs s) = set xs \<union> set s"
  by (induction xs arbitrary: s) (auto simp: set_add_def)

lemma set_new_Set: "set (new_Set xs) = set xs"
  by (simp add: new_Set_def set_fold_set_add)

lemma getp_undefined: "key \<notin> set (keys r) \<Longrightarrow> getp r key = JUndefined"
  by (auto simp: getp_def keys_def split: option.splits dest: map_of_SomeD intro: rev_image_eqI)

section \<open>The two loops over the keys\<close>

text \<open>
  Each loop writes, for a key it visits, a value that depends on the key alone; so the
  property read of the result is known key by key.
\<close>

lemma lerp_key_other: "k \<noteq> key \<Longrightarrow> getp (lerp_key p n r k res) key = getp res key"
  by (auto simp: lerp_key_def getp_setp split: jsval.splits)

lemma lerp_key_same:
  "getp (lerp_key p n r key res) key =
     (if key = ''frame'' then getp res key
      else case (getp p key, getp n key) of
        (JNumber a, JNumber b) \<Rightarrow> JNumber (dbl_add a (dbl_mul (dbl_sub b a) r))
      | (v1, _) \<Rightarrow> if v1 \<noteq> JUndefined then v1 else getp res key)"
  by (auto simp: lerp_key_def getp_setp split: jsval.splits)

lemma lerp_key_idem: "getp (lerp_key p n r key (lerp_key p n r k res)) key = getp (lerp_key p n r key res) key"
  by (cases "k = key") (auto simp: lerp_key_same lerp_key_other split: jsval.splits)

lemma getp_fold_lerp_key:
  "getp (fold (lerp_key p n r) ks res) key =
     (if key \<in> set ks then getp (lerp_key p n r key res) key else getp res key)"
proof (induction ks arbitrary: res)
  case Nil
  then show ?case by simp
next
  case (Cons k ks)
  show ?case
  proof (cases "key \<in> set ks")
    case True
    then show ?thesis using Cons.IH [of "lerp_key p n r k res"]
      by (simp add: lerp_key_idem)
  next
    case False
    then show ?thesis using Cons.IH [of "lerp_key p n r k res"]
      by (auto simp: lerp_key_other)
  qed
qed

lemma frame_lerp_key: "frame (lerp_key p n r k res) = frame res"
  by (auto simp: lerp_key_def frame_setp split: jsval.splits)

lemma frame_fold_lerp_key: "frame (fold (lerp_key p n r) ks res) = frame res"
  by (induction ks arbitrary: res) (simp_all add: frame_lerp_key)





lemma frame_lerp_prop: "frame (lerp_prop p n r k res) = frame res"
  by (auto simp: lerp_prop_def frame_setp split: jsval.splits)

lemma frame_fold_lerp_prop: "frame (fold (lerp_prop p n r) ks res) = frame res"
  by (induction ks arbitrary: res) (simp_all add: frame_lerp_prop)




section \<open>The scan for the surrounding keyframes\<close>

text \<open>
  The scan stops at the first keyframe after the target: \<open>prev\<close> is the last of the
  leading keyframes that are not after the target, \<open>next\<close> the one that follows them.
\<close>

lemma scan_takeWhile:
  "i \<le> length xs \<Longrightarrow>
   scan xs t i p n =
     (let c = length (takeWhile (\<lambda>k. frame k \<le> t) (drop i xs))
      in (if c = 0 then p else i + c - 1, if i + c < length xs then i + c else n))"
proof (induction xs t i p n rule: scan.induct)
  case (1 xs t i p n)
  show ?case
  proof (cases "i < length xs")
    case False
    then show ?thesis using "1.prems" by (simp add: scan.simps)
  next
    case True
    then have d: "drop i xs = xs ! i # drop (Suc i) xs"
      by (simp add: Cons_nth_drop_Suc)
    show ?thesis
    proof (cases "frame (xs ! i) \<le> t")
      case le: True
      have "scan xs t i p n = scan xs t (Suc i) i n"
        using True le by (subst scan.simps) simp
      also have "\<dots> = (let c = length (takeWhile (\<lambda>k. frame k \<le> t) (drop (Suc i) xs))
            in (if c = 0 then i else Suc i + c - 1, if Suc i + c < length xs then Suc i + c else n))"
        using "1.IH" [OF True le] True by simp
      finally show ?thesis using le d True by (auto simp: Let_def)
    next
      case gt: False
      then show ?thesis using True d by (subst scan.simps) (simp add: Let_def)
    qed
  qed
qed

lemma scan_result:
  assumes "xs \<noteq> []"
  shows "scan xs t 0 0 (length xs - 1) =
    (length (takeWhile (\<lambda>k. frame k \<le> t) xs) - 1,
     if length (takeWhile (\<lambda>k. frame k \<le> t) xs) < length xs
     then length (takeWhile (\<lambda>k. frame k \<le> t) xs) else length xs - 1)"
  using scan_takeWhile [of 0 xs t 0 "length xs - 1"] by (auto simp: Let_def)

lemma scan_next:
  assumes "scan xs t 0 0 (length xs - 1) = (p, n)" "p \<noteq> n"
  shows "List.find (\<lambda>x. t < frame x) xs = Some (xs ! n)"
proof -
  define c where "c = length (takeWhile (\<lambda>k. frame k \<le> t) xs)"
  have ne: "xs \<noteq> []"
    using assms by (auto simp: scan.simps)
  have pn: "p = c - 1" "n = (if c < length xs then c else length xs - 1)"
    using assms(1) unfolding scan_result [OF ne] c_def by simp_all
  have cle: "c \<le> length xs"
    by (simp add: c_def length_takeWhile_le)
  have c: "c < length xs" "n = c"
    using pn cle assms(2) by (auto split: if_splits)
  have after: "\<not> frame (xs ! c) \<le> t"
    using c(1) nth_length_takeWhile [of "\<lambda>k. frame k \<le> t" xs] by (simp add: c_def)
  have before: "frame (xs ! j) \<le> t" if "j < c" for j
  proof -
    have "takeWhile (\<lambda>k. frame k \<le> t) xs ! j \<in> set (takeWhile (\<lambda>k. frame k \<le> t) xs)"
      using that by (simp add: c_def)
    then have "frame (takeWhile (\<lambda>k. frame k \<le> t) xs ! j) \<le> t"
      by (auto dest: set_takeWhileD)
    then show ?thesis
      using that by (simp add: c_def takeWhile_nth)
  qed
  show ?thesis
    unfolding find_Some_iff c(2)
    using c(1) after before by (intro exI [of _ c]) (auto simp: not_le not_less)
qed

lemma scan_bounds:
  assumes "xs \<noteq> []" "scan xs t 0 0 (length xs - 1) = (p, n)"
  shows "p < length xs" "n < length xs" "p \<noteq> n \<Longrightarrow> frame (xs ! p) \<le> t \<and> t < frame (xs ! n)"
    "p = length (takeWhile (\<lambda>k. frame k \<le> t) xs) - 1"
proof -
  define c where "c = length (takeWhile (\<lambda>k. frame k \<le> t) xs)"
  have cle: "c \<le> length xs"
    by (simp add: c_def length_takeWhile_le)
  have pn: "p = c - 1" "n = (if c < length xs then c else length xs - 1)"
    using assms(2) scan_takeWhile [of 0 xs t 0 "length xs - 1"]
    by (auto simp: c_def Let_def)
  have "0 < length xs"
    using assms(1) by simp
  then show "p < length xs" "n < length xs"
    using pn cle by (auto split: if_splits)
  show "p = length (takeWhile (\<lambda>k. frame k \<le> t) xs) - 1"
    using pn c_def by simp
  assume ne: "p \<noteq> n"
  then have c: "0 < c" "c < length xs"
    using pn cle by (auto split: if_splits)
  have "xs ! (c - 1) = takeWhile (\<lambda>k. frame k \<le> t) xs ! (c - 1)"
    using c by (simp add: c_def takeWhile_nth)
  moreover have "takeWhile (\<lambda>k. frame k \<le> t) xs ! (c - 1) \<in> set (takeWhile (\<lambda>k. frame k \<le> t) xs)"
    using c by (simp add: c_def)
  ultimately have "frame (xs ! (c - 1)) \<le> t"
    by (auto dest: set_takeWhileD)
  moreover have "\<not> frame (xs ! c) \<le> t"
    using c nth_length_takeWhile [of "\<lambda>k. frame k \<le> t" xs] by (simp add: c_def)
  ultimately show "frame (xs ! p) \<le> t \<and> t < frame (xs ! n)"
    using pn c by simp
qed

lemma interpolate_cases:
  assumes "sortFrames fs = xs" "xs \<noteq> []" "scan xs t 0 0 (length xs - 1) = (p, n)"
  shows "interpolate fs t =
    (if p = n then (xs ! p)\<lparr>frame := t\<rparr>
     else fold (lerp_key (xs ! p) (xs ! n)
              (dbl_div (dbl_sub (Finite t) (Finite (frame (xs ! p))))
                 (dbl_sub (Finite (frame (xs ! n))) (Finite (frame (xs ! p))))))
            (new_Set (keys (xs ! p) @ keys (xs ! n))) \<lparr>frame = t, props = []\<rparr>)"
  using assms scan_bounds(3) [OF assms(2,3)]
  by (auto simp: interpolate_def Let_def)

lemma frame_at_cases:
  assumes "List.find (\<lambda>k. frame k = t) xs = None" "xs \<noteq> []" "scan xs t 0 0 (length xs - 1) = (p, n)"
  shows "frame_at xs ps t =
    (if p = n then (xs ! p)\<lparr>frame := t\<rparr>
     else fold (lerp_prop (xs ! p) (xs ! n)
              (dbl_div (dbl_sub (Finite t) (Finite (frame (xs ! p))))
                 (dbl_sub (Finite (frame (xs ! n))) (Finite (frame (xs ! p))))))
            ps ((xs ! p)\<lparr>frame := t\<rparr>))"
  using assms scan_bounds(3) [OF assms(2,3)]
  by (auto simp: frame_at_def Let_def)

lemma getp_lazy_interp:
  "getp (fold (lerp_key p n r) (new_Set (keys p @ keys n)) \<lparr>frame = t, props = []\<rparr>) key =
     (if key = ''frame'' then JNum t
      else case (getp p key, getp n key) of
        (JNumber a, JNumber b) \<Rightarrow> JNumber (dbl_add a (dbl_mul (dbl_sub b a) r))
      | (v1, _) \<Rightarrow> v1)"
proof (cases "key \<in> set (keys p @ keys n)")
  case True
  then show ?thesis
    by (auto simp: getp_fold_lerp_key set_new_Set lerp_key_same split: jsval.splits)
       (simp_all add: getp_def)
next
  case False
  then have "getp p key = JUndefined" "key \<noteq> ''frame''"
    using getp_undefined [of key p] by (auto simp: keys_def)
  with False show ?thesis
    by (simp add: getp_fold_lerp_key set_new_Set) (simp add: getp_def)
qed



section \<open>Sorted keyframes and exact matches\<close>

lemma find_filter: "List.find P xs = (case filter P xs of [] \<Rightarrow> None | x # _ \<Rightarrow> Some x)"
  by (induction xs) auto

lemma sorted_takeWhile_filter:
  "sorted (map f xs) \<Longrightarrow> takeWhile (\<lambda>x. f x \<le> (t::rat)) xs = filter (\<lambda>x. f x \<le> t) xs"
proof (induction xs)
  case Nil
  then show ?case by simp
next
  case (Cons x xs)
  show ?case
  proof (cases "f x \<le> t")
    case True
    then show ?thesis using Cons by simp
  next
    case False
    then have "\<forall>y \<in> set xs. \<not> f y \<le> t"
      using Cons.prems by auto
    then have "filter (\<lambda>x. f x \<le> t) xs = []"
      by (simp add: filter_empty_conv)
    then show ?thesis using False by simp
  qed
qed

lemma sorted_filter_le_split:
  "sorted (map f xs) \<Longrightarrow>
   filter (\<lambda>x. f x \<le> (t::rat)) xs = filter (\<lambda>x. f x < t) xs @ filter (\<lambda>x. f x = t) xs"
proof (induction xs)
  case Nil
  then show ?case by simp
next
  case (Cons x xs)
  show ?case
  proof (cases "f x < t")
    case True
    then show ?thesis using Cons by simp
  next
    case False
    then have "\<forall>y \<in> set xs. \<not> f y < t"
      using Cons.prems by auto
    then have "filter (\<lambda>x. f x < t) xs = []"
      by (simp add: filter_empty_conv)
    then show ?thesis using False Cons by auto
  qed
qed

lemma sorted_sortFrames: "sorted (map frame (sortFrames fs))"
  by (simp add: sortFrames_def)

lemma filter_sortFrames:
  "filter (\<lambda>k. frame k = t) (sortFrames fs) = filter (\<lambda>k. frame k = t) fs"
  by (simp add: sortFrames_def sort_key_stable)

lemma sortFrames_Nil: "sortFrames fs = [] \<longleftrightarrow> fs = []"
  by (metis sortFrames_def length_sort length_0_conv)

lemma scan_prev_exact:
  assumes "sorted (map frame xs)" "filter (\<lambda>k. frame k = t) xs \<noteq> []"
    "scan xs t 0 0 (length xs - 1) = (p, n)"
  shows "xs ! p = last (filter (\<lambda>k. frame k = t) xs)"
proof -
  have ne: "xs \<noteq> []"
    using assms(2) by auto
  let ?tw = "takeWhile (\<lambda>k. frame k \<le> t) xs"
  have tw: "?tw = filter (\<lambda>k. frame k < t) xs @ filter (\<lambda>k. frame k = t) xs"
    using assms(1) by (simp add: sorted_takeWhile_filter sorted_filter_le_split)
  then have twne: "?tw \<noteq> []"
    using assms(2) by simp
  have "p = length ?tw - 1"
    using scan_bounds(4) [OF ne assms(3)] .
  then have "xs ! p = ?tw ! (length ?tw - 1)"
    using twne by (simp add: takeWhile_nth)
  also have "\<dots> = last ?tw"
    using twne by (simp add: last_conv_nth)
  also have "\<dots> = last (filter (\<lambda>k. frame k = t) xs)"
    using assms(2) by (simp add: tw)
  finally show ?thesis .
qed

lemma no_overflow_key:
  assumes "no_overflow prev nx" "getp prev key = JNumber a" "getp nx key = JNumber b"
    "key \<noteq> ''frame''"
  shows "finite_double a" "is_finite (dbl_sub b a)"
proof -
  have "key \<in> set (keys prev)"
    using assms(2) getp_undefined [of key prev] by auto
  then have "key \<in> set (map fst (props prev))"
    using assms(4) by (simp add: keys_def)
  then have "case (getp prev key, getp nx key) of
      (JNumber a, JNumber b) \<Rightarrow> finite_double a \<and> is_finite (dbl_sub b a) | _ \<Rightarrow> True"
    using assms(1) unfolding no_overflow_def list_all_iff by blast
  then show "finite_double a" "is_finite (dbl_sub b a)"
    by (simp_all add: assms(2,3))
qed

lemma lazy_exact:
  assumes "filter (\<lambda>k. frame k = t) fs \<noteq> []"
    and "case following fs t of None \<Rightarrow> True
         | Some nx \<Rightarrow> no_overflow (last (filter (\<lambda>k. frame k = t) fs)) nx"
  shows "frame (interpolate fs t) = t"
    and "getp (interpolate fs t) key = getp (last (filter (\<lambda>k. frame k = t) fs)) key"
proof -
  define xs where "xs = sortFrames fs"
  have flt: "filter (\<lambda>k. frame k = t) xs = filter (\<lambda>k. frame k = t) fs"
    by (simp add: xs_def filter_sortFrames)
  have ne: "xs \<noteq> []"
    using assms(1) flt by auto
  obtain p n where pn: "scan xs t 0 0 (length xs - 1) = (p, n)"
    by (cases "scan xs t 0 0 (length xs - 1)") auto
  have prev: "xs ! p = last (filter (\<lambda>k. frame k = t) fs)"
    using scan_prev_exact [OF _ _ pn] assms(1) flt by (simp add: xs_def sorted_sortFrames)
  have "last (filter (\<lambda>k. frame k = t) fs) \<in> set (filter (\<lambda>k. frame k = t) fs)"
    using assms(1) by (rule last_in_set)
  then have fp: "frame (xs ! p) = t"
    unfolding prev by (simp del: last_in_set)
  note L = interpolate_cases [OF xs_def [symmetric] ne pn]
  show "frame (interpolate fs t) = t"
    unfolding L by (simp add: frame_fold_lerp_key)
  show "getp (interpolate fs t) key = getp (last (filter (\<lambda>k. frame k = t) fs)) key"
  proof (cases "p = n")
    case True
    then show ?thesis
      unfolding L prev [symmetric] using fp by (simp add: getp_frame_update) (simp add: getp_def)
  next
    case False
    then have "following fs t = Some (xs ! n)"
      using scan_next [OF pn] by (simp add: following_def xs_def)
    then have safe: "no_overflow (xs ! p) (xs ! n)"
      using assms(2) by (simp add: prev)
    then have apart: "dbl_sub (Finite (frame (xs ! n))) (Finite t) \<noteq> Finite 0"
      by (simp add: no_overflow_def fp)
    show ?thesis
    proof (cases "key = ''frame''")
      case True
      then show ?thesis
        unfolding L prev [symmetric] using False fp by (simp add: getp_lazy_interp) (simp add: getp_def)
    next
      case key: False
      show ?thesis
      proof (cases "\<exists>a b. getp (xs ! p) key = JNumber a \<and> getp (xs ! n) key = JNumber b")
        case True
        then obtain a b where ab: "getp (xs ! p) key = JNumber a" "getp (xs ! n) key = JNumber b"
          by blast
        have "dbl_add a (dbl_mul (dbl_sub b a)
           (dbl_div (dbl_sub (Finite t) (Finite t)) (dbl_sub (Finite (frame (xs ! n))) (Finite t)))) = a"
          using no_overflow_key [OF safe ab key] apart by (intro lerp_at_zero)
        then show ?thesis
          unfolding L prev [symmetric] using False key ab fp by (simp add: getp_lazy_interp)
      next
        case other: False
        then show ?thesis
          unfolding L prev [symmetric] using False key
          by (auto simp: getp_lazy_interp split: jsval.splits)
      qed
    qed
  qed
qed

lemma lazy_exact_at:
  assumes "filter (\<lambda>k. frame k = t) fs \<noteq> []" "no_overflow_at fs t"
  shows "frame (interpolate fs t) = t"
    and "getp (interpolate fs t) key = getp (last (filter (\<lambda>k. frame k = t) fs)) key"
proof -
  have "case following fs t of None \<Rightarrow> True
        | Some nx \<Rightarrow> no_overflow (last (filter (\<lambda>k. frame k = t) fs)) nx"
    using assms by (simp add: no_overflow_at_def split: option.splits)
  then show "frame (interpolate fs t) = t"
    and "getp (interpolate fs t) key = getp (last (filter (\<lambda>k. frame k = t) fs)) key"
    using lazy_exact [OF assms(1)] by simp_all
qed

text \<open>
  Without the condition: a keyframe with \<open>x = h\<close> followed by one with \<open>x = - h\<close>, for
  \<open>h\<close> of \<open>2 ^ 1023\<close> or more, resolves at its own frame to \<open>x = NaN\<close>, since \<open>v2 - v1\<close>
  overflows and an infinity times zero is \<open>NaN\<close>.
\<close>

lemma interpolate_overflow:
  assumes "2 ^ 1023 \<le> h"
  shows "getp (interpolate [\<lparr>frame = 0, props = [(''x'', JNum h)]\<rparr>,
                            \<lparr>frame = 10, props = [(''x'', JNum (- h))]\<rparr>] 0) ''x'' = JNumber NaN"
proof -
  have "dbl_sub (Finite 10) (Finite 0) \<noteq> Finite 0"
    by (rule frames_apart) simp
  then have "dbl_div (Finite 0) (dbl_sub (Finite 10) (Finite 0)) = Finite 0"
    by (intro dbl_div_zero) (simp_all add: dbl_sub_finite)
  then show ?thesis
    using lerp_overflow [OF assms]
    by (simp add: interpolate_def sortFrames_def scan.simps new_Set_def keys_def set_add_def
        lerp_key_def getp_def setp_def)
qed

lemma interpolate_overflow_example:
  "getp (interpolate ex_overflow 0) ''x'' = JNumber NaN \<and>
   frame_at (sortFrames ex_overflow) ps 0 = \<lparr>frame = 0, props = [(''x'', JNum (2 ^ 1023))]\<rparr> \<and>
   \<not> no_overflow_at ex_overflow 0"
proof -
  have 1: "getp (interpolate ex_overflow 0) ''x'' = JNumber NaN"
    unfolding ex_overflow_def by (rule interpolate_overflow) simp
  have f: "filter (\<lambda>x. frame x = 0) ex_overflow = [\<lparr>frame = 0, props = [(''x'', JNum (2 ^ 1023))]\<rparr>]"
    by (simp add: ex_overflow_def)
  have 2: "frame_at (sortFrames ex_overflow) ps 0 = \<lparr>frame = 0, props = [(''x'', JNum (2 ^ 1023))]\<rparr>"
    by (simp add: frame_at_def find_filter filter_sortFrames f)
  have "no_overflow_at ex_overflow 0 \<Longrightarrow> False"
  proof -
    assume "no_overflow_at ex_overflow 0"
    then have "getp (interpolate ex_overflow 0) ''x'' =
        getp (last (filter (\<lambda>x. frame x = 0) ex_overflow)) ''x''"
      using lazy_exact_at(2) [of 0 ex_overflow] by (simp add: f)
    then have "JNumber NaN = getp (last (filter (\<lambda>x. frame x = 0) ex_overflow)) ''x''"
      by (simp only: 1)
    then show False
      by (simp add: f getp_def)
  qed
  then show ?thesis
    using 1 2 by blast
qed

text \<open>Off the keyframes the result is rounded: a third of the way from 0 to 1.\<close>

lemma interpolate_rounds:
  "interpolate [\<lparr>frame = 0, props = [(''x'', JNum 0)]\<rparr>, \<lparr>frame = 3, props = [(''x'', JNum 1)]\<rparr>] 1
     = \<lparr>frame = 1, props = [(''x'', JNum (6004799503160661 / 18014398509481984))]\<rparr>"
  by code_simp


lemma frame_frame_at: "frame (frame_at xs ps t) = t"
proof (cases "List.find (\<lambda>k. frame k = t) xs")
  case None
  then show ?thesis
    by (simp add: frame_at_def Let_def frame_fold_lerp_prop split: prod.splits)
next
  case (Some e)
  then have "frame e = t"
    by (auto simp: find_Some_iff)
  then show ?thesis
    using Some by (simp add: frame_at_def)
qed

lemma precalc_loop_map:
  "precalc_loop kfs ps d f acc =
     acc @ map (\<lambda>i. frame_at kfs ps (of_nat i)) [f ..< nat (\<lfloor>d\<rfloor> + 1)]"
proof (induction kfs ps d f acc rule: precalc_loop.induct)
  case (1 kfs ps d f acc)
  show ?case
  proof (cases "of_nat f \<le> d")
    case True
    then have "int f \<le> \<lfloor>d\<rfloor>"
      by (simp add: le_floor_iff)
    then have "f < nat (\<lfloor>d\<rfloor> + 1)"
      by simp
    then have "[f ..< nat (\<lfloor>d\<rfloor> + 1)] = f # [Suc f ..< nat (\<lfloor>d\<rfloor> + 1)]"
      by (simp add: upt_conv_Cons)
    then show ?thesis
      using True "1.IH" [OF True] by (subst precalc_loop.simps) simp
  next
    case False
    then have "\<not> int f \<le> \<lfloor>d\<rfloor>"
      by (simp add: le_floor_iff)
    then have "[f ..< nat (\<lfloor>d\<rfloor> + 1)] = []"
      by simp
    then show ?thesis
      using False by (subst precalc_loop.simps) simp
  qed
qed

lemma find_dense:
  assumes "\<And>i. i < N \<Longrightarrow> frame (g i) = of_nat i" "f < N"
  shows "List.find (\<lambda>s. frame s = of_nat f) (map g [0..<N]) = Some (g f)"
proof -
  have "\<And>j. j < f \<Longrightarrow> frame (g j) \<noteq> of_nat f"
    using assms by simp
  then show ?thesis
    using assms by (auto simp: find_Some_iff intro!: exI [of _ f])
qed

section \<open>The dense table\<close>

lemma dense_table:
  "precalc_loop kfs ps d 0 [] = map (\<lambda>i. frame_at kfs ps (of_nat i)) [0 ..< nat (\<lfloor>d\<rfloor> + 1)]"
  by (simp add: precalc_loop_map)

lemma precalculate_element_frames:
  assumes "elem_type el \<noteq> AudioType" "frames el \<noteq> []"
  shows "precalculate_element d el =
    el\<lparr>frames := map (\<lambda>i. frame_at (sortFrames (frames el)) (propsToInterpolate (sortFrames (frames el))) (of_nat i))
                    [0 ..< nat (\<lfloor>d\<rfloor> + 1)]\<rparr>"
  using assms by (simp add: precalculate_element_def Let_def sortFrames_Nil dense_table)

lemma precalculate_element_unchanged:
  "elem_type el = AudioType \<or> frames el = [] \<Longrightarrow> precalculate_element d el = el"
  by (auto simp: precalculate_element_def Let_def sortFrames_Nil)

lemma sortFrames_dense:
  assumes "\<And>i. i < N \<Longrightarrow> frame (g i) = of_nat i"
  shows "sortFrames (map g [0..<N]) = map g [0..<N]"
proof -
  have eq: "map frame (map g [0..<N]) = map (of_nat :: nat \<Rightarrow> rat) [0..<N]"
    using assms by simp
  have "sorted (map (of_nat :: nat \<Rightarrow> rat) [0..<N])"
    by (simp add: sorted_map sorted_wrt_iff_nth_less)
  then have "sorted (map frame (map g [0..<N]))"
    by (simp only: eq)
  then show ?thesis
    unfolding sortFrames_def by (rule sort_key_id_if_sorted)
qed

lemma frame_at_dense:
  assumes "\<And>i. i < N \<Longrightarrow> frame (g i) = of_nat i" "f < N"
  shows "frame_at (map g [0..<N]) ps (of_nat f) = g f"
  using find_dense [of N g f] assms by (simp add: frame_at_def)

lemma precalculate_element_idem:
  "precalculate_element d (precalculate_element d el) = precalculate_element d el"
proof (cases "elem_type el = AudioType \<or> frames el = []")
  case True
  then show ?thesis by (simp add: precalculate_element_unchanged)
next
  case False
  define N where "N = nat (\<lfloor>d\<rfloor> + 1)"
  define g where "g = (\<lambda>i::nat. frame_at (sortFrames (frames el)) (propsToInterpolate (sortFrames (frames el))) (of_nat i))"
  have g: "\<And>i. i < N \<Longrightarrow> frame (g i) = of_nat i"
    by (simp add: g_def frame_frame_at)
  have 1: "precalculate_element d el = el\<lparr>frames := map g [0..<N]\<rparr>"
    using False by (simp add: precalculate_element_frames g_def N_def)
  show ?thesis
  proof (cases "N = 0")
    case True
    then show ?thesis
      unfolding 1 by (simp add: precalculate_element_unchanged)
  next
    case N: False
    have "map (\<lambda>i. frame_at (map g [0..<N]) ps (of_nat i)) [0..<N] = map g [0..<N]" for ps
      using frame_at_dense [OF g] by simp
    then show ?thesis
      unfolding 1 using False N
      by (simp add: precalculate_element_frames sortFrames_dense [OF g] N_def [symmetric])
  qed
qed


lemma getElementState_interpolate:
  assumes "el \<in> set (elements m)" "distinct (map elem_id (elements m))"
  shows "getElementState m (elem_id el) t = Some (interpolate (frames el) t)"
proof -
  have "List.find (\<lambda>e. elem_id e = elem_id el) es = Some el"
    if "el \<in> set es" "distinct (map elem_id es)" for es
    using that by (induction es) (auto simp: rev_image_eqI)
  then show ?thesis
    using assms by (simp add: getElementState_def)
qed

section \<open>Targets outside the keyframes\<close>

lemma scan_before_first:
  assumes "xs \<noteq> []" "\<forall>k \<in> set xs. t < frame k"
  shows "scan xs t 0 0 (length xs - 1) = (0, 0)"
proof -
  have "takeWhile (\<lambda>k. frame k \<le> t) xs = []"
    using assms by (cases xs) auto
  then show ?thesis
    using scan_result [OF assms(1), of t] assms(1) by simp
qed

lemma scan_after_last:
  assumes "xs \<noteq> []" "\<forall>k \<in> set xs. frame k \<le> t"
  shows "scan xs t 0 0 (length xs - 1) = (length xs - 1, length xs - 1)"
proof -
  have tw: "takeWhile (\<lambda>k. frame k \<le> t) xs = xs"
    using assms(2) by (simp add: takeWhile_eq_all_conv)
  show ?thesis
    unfolding scan_result [OF assms(1)] tw by simp
qed

lemma find_frame_None: "\<forall>k \<in> set xs. frame k \<noteq> t \<Longrightarrow> List.find (\<lambda>k. frame k = t) xs = None"
  by (simp add: find_None_iff)

lemma sorted_hd_least:
  "sorted (map frame xs) \<Longrightarrow> k \<in> set xs \<Longrightarrow> frame (hd xs) \<le> frame k"
  by (cases xs) auto

lemma sorted_last_greatest:
  assumes "sorted (map frame xs)" "k \<in> set xs"
  shows "frame k \<le> frame (last xs)"
proof -
  obtain i where i: "i < length xs" "xs ! i = k"
    using assms(2) by (auto simp: in_set_conv_nth)
  then have "map frame xs ! i \<le> map frame xs ! (length xs - 1)"
    using assms(1) by (intro sorted_nth_mono) auto
  moreover have "xs \<noteq> []"
    using i by auto
  ultimately show ?thesis
    using i by (simp add: last_conv_nth)
qed

lemma clamp_first:
  assumes "fs \<noteq> []" "\<forall>k \<in> set fs. t < frame k"
  shows "interpolate fs t = (hd (sortFrames fs))\<lparr>frame := t\<rparr>"
    and "frame_at (sortFrames fs) ps t = (hd (sortFrames fs))\<lparr>frame := t\<rparr>"
proof -
  define xs where "xs = sortFrames fs"
  have ne: "xs \<noteq> []"
    using assms(1) by (simp add: xs_def sortFrames_Nil)
  have a: "\<forall>k \<in> set xs. t < frame k"
    using assms(2) by (simp add: xs_def sortFrames_def)
  have s: "scan xs t 0 0 (length xs - 1) = (0, 0)"
    using ne a by (rule scan_before_first)
  have f: "List.find (\<lambda>k. frame k = t) xs = None"
    using a by (intro find_frame_None) auto
  have h: "hd xs = xs ! 0"
    using ne by (rule hd_conv_nth)
  show "interpolate fs t = (hd (sortFrames fs))\<lparr>frame := t\<rparr>"
    unfolding xs_def [symmetric] h interpolate_cases [OF xs_def [symmetric] ne s] by simp
  show "frame_at (sortFrames fs) ps t = (hd (sortFrames fs))\<lparr>frame := t\<rparr>"
    unfolding xs_def [symmetric] h frame_at_cases [OF f ne s] by simp
qed

lemma clamp_last:
  assumes "fs \<noteq> []" "\<forall>k \<in> set fs. frame k < t"
  shows "interpolate fs t = (last (sortFrames fs))\<lparr>frame := t\<rparr>"
    and "frame_at (sortFrames fs) ps t = (last (sortFrames fs))\<lparr>frame := t\<rparr>"
proof -
  define xs where "xs = sortFrames fs"
  have ne: "xs \<noteq> []"
    using assms(1) by (simp add: xs_def sortFrames_Nil)
  have a: "\<forall>k \<in> set xs. frame k < t"
    using assms(2) by (simp add: xs_def sortFrames_def)
  then have a': "\<forall>k \<in> set xs. frame k \<le> t"
    by auto
  have s: "scan xs t 0 0 (length xs - 1) = (length xs - 1, length xs - 1)"
    using ne a' by (rule scan_after_last)
  have f: "List.find (\<lambda>k. frame k = t) xs = None"
    using a by (intro find_frame_None) auto
  have h: "last xs = xs ! (length xs - 1)"
    using ne by (rule last_conv_nth)
  show "interpolate fs t = (last (sortFrames fs))\<lparr>frame := t\<rparr>"
    unfolding xs_def [symmetric] h interpolate_cases [OF xs_def [symmetric] ne s] by simp
  show "frame_at (sortFrames fs) ps t = (last (sortFrames fs))\<lparr>frame := t\<rparr>"
    unfolding xs_def [symmetric] h frame_at_cases [OF f ne s] by simp
qed

lemma sortFrames_extremes:
  assumes "fs \<noteq> []"
  shows "hd (sortFrames fs) \<in> set fs" "last (sortFrames fs) \<in> set fs"
    "k \<in> set fs \<Longrightarrow> frame (hd (sortFrames fs)) \<le> frame k"
    "k \<in> set fs \<Longrightarrow> frame k \<le> frame (last (sortFrames fs))"
proof -
  have ne: "sortFrames fs \<noteq> []"
    using assms by (simp add: sortFrames_Nil)
  have set: "set (sortFrames fs) = set fs"
    by (simp add: sortFrames_def)
  show "hd (sortFrames fs) \<in> set fs"
    using hd_in_set [OF ne] by (simp only: set)
  show "last (sortFrames fs) \<in> set fs"
    using last_in_set [OF ne] by (simp only: set)
  show "frame (hd (sortFrames fs)) \<le> frame k" if "k \<in> set fs"
    using sorted_hd_least [OF sorted_sortFrames, of k fs] that by (simp only: set)
  show "frame k \<le> frame (last (sortFrames fs))" if "k \<in> set fs"
    using sorted_last_greatest [OF sorted_sortFrames, of k fs] that by (simp only: set)
qed

section \<open>The clock and the audio window\<close>

lemma js_rem_wrap:
  assumes "0 < d" "d < a"
  shows "js_rem (Finite a) d = Finite (a - d * of_int \<lfloor>a / d\<rfloor>)"
    and "0 \<le> a - d * of_int \<lfloor>a / d\<rfloor>" and "a - d * of_int \<lfloor>a / d\<rfloor> < d"
proof -
  have "0 \<le> a / d"
    using assms by simp
  then show "js_rem (Finite a) d = Finite (a - d * of_int \<lfloor>a / d\<rfloor>)"
    using assms by (simp add: js_trunc_def)
  have "of_int \<lfloor>a / d\<rfloor> * d \<le> a"
    using of_int_floor_le [of "a / d"] unfolding pos_le_divide_eq [OF assms(1)] .
  then show "0 \<le> a - d * of_int \<lfloor>a / d\<rfloor>"
    by (simp add: mult.commute)
  have "a / d < of_int \<lfloor>a / d\<rfloor> + 1"
    by linarith
  then have "a < (of_int \<lfloor>a / d\<rfloor> + 1) * d"
    using assms(1) by (simp add: pos_divide_less_eq)
  then show "a - d * of_int \<lfloor>a / d\<rfloor> < d"
    by (simp add: algebra_simps)
qed

lemma update_loop:
  assumes "loop m" "currentFrame r = Finite c" "duration m < c + fps m / 60 * dt"
  shows "currentFrame (fst (update m r dt)) = js_rem (Finite (c + fps m / 60 * dt)) (duration m)"
  using assms by (simp add: update_def Let_def)

lemma renderFrame_audio_outside:
  assumes "startFrame el = Some s" "endFrame el = Some e" "fr < s \<or> e \<le> fr"
  shows "renderFrame_audio m playing el fr item =
    Inr (if paused item then item else item\<lparr>paused := True, currentTime := 0\<rparr>)"
  using assms by (auto simp: renderFrame_audio_def audio_pause_def)

lemma renderFrame_audio_inside:
  assumes "startFrame el = Some s" "endFrame el = Some e" "s \<le> fr" "fr < e" "fps m \<noteq> 0"
  shows "renderFrame_audio m True el fr item =
    Inr (if paused item then item\<lparr>paused := False, currentTime := (fr - s) / fps m\<rparr>
         else if \<bar>currentTime item - (fr - s) / fps m\<bar> > 1 / 2
           then item\<lparr>currentTime := (fr - s) / fps m\<rparr> else item)"
  using assms by (auto simp: renderFrame_audio_def audio_play_def js_div_def Let_def)

section \<open>Claims\<close>











text \<open>
  Claim C4. For a keyframe list that is not empty: if the target frame is smaller than the
  frame of every keyframe, resolving returns the first keyframe in ascending order, one of
  smallest frame, with its frame field rewritten to the target; if the target frame is
  greater than the frame of every keyframe, it returns the last keyframe in ascending
  order, one of greatest frame, with its frame field rewritten. The lazy \<open>interpolate\<close> and
  the entry that the eager loop computes do so alike.
\<close>

theorem boundary_clamp:
  assumes "fs \<noteq> []"
  shows "((\<forall>k \<in> set fs. t < frame k) \<longrightarrow>
            interpolate fs t = (hd (sortFrames fs))\<lparr>frame := t\<rparr> \<and>
            frame_at (sortFrames fs) ps t = (hd (sortFrames fs))\<lparr>frame := t\<rparr>) \<and>
         ((\<forall>k \<in> set fs. frame k < t) \<longrightarrow>
            interpolate fs t = (last (sortFrames fs))\<lparr>frame := t\<rparr> \<and>
            frame_at (sortFrames fs) ps t = (last (sortFrames fs))\<lparr>frame := t\<rparr>) \<and>
         hd (sortFrames fs) \<in> set fs \<and> last (sortFrames fs) \<in> set fs \<and>
         (\<forall>k \<in> set fs. frame (hd (sortFrames fs)) \<le> frame k \<and> frame k \<le> frame (last (sortFrames fs)))"
proof (intro conjI impI ballI)
  assume a: "\<forall>k \<in> set fs. t < frame k"
  show "interpolate fs t = (hd (sortFrames fs))\<lparr>frame := t\<rparr>"
    using assms a by (rule clamp_first(1))
  show "frame_at (sortFrames fs) ps t = (hd (sortFrames fs))\<lparr>frame := t\<rparr>"
    using assms a by (rule clamp_first(2))
next
  assume a: "\<forall>k \<in> set fs. frame k < t"
  show "interpolate fs t = (last (sortFrames fs))\<lparr>frame := t\<rparr>"
    using assms a by (rule clamp_last(1))
  show "frame_at (sortFrames fs) ps t = (last (sortFrames fs))\<lparr>frame := t\<rparr>"
    using assms a by (rule clamp_last(2))
next
  show "hd (sortFrames fs) \<in> set fs" "last (sortFrames fs) \<in> set fs"
    using assms by (rule sortFrames_extremes)+
next
  fix k assume "k \<in> set fs"
  then show "frame (hd (sortFrames fs)) \<le> frame k" "frame k \<le> frame (last (sortFrames fs))"
    using assms by (simp_all add: sortFrames_extremes)
qed

theorem boundary_clamp_witness:
  "ex_frames \<noteq> [] \<and> list_all (\<lambda>k. 1 < frame k) ex_frames \<and> list_all (\<lambda>k. frame k < 12) ex_frames \<and>
   interpolate ex_frames 1 = \<lparr>frame = 1, props = [(''x'', JNum 40)]\<rparr> \<and>
   frame_at (sortFrames ex_frames) (propsToInterpolate (sortFrames ex_frames)) 1 = \<lparr>frame = 1, props = [(''x'', JNum 40)]\<rparr> \<and>
   interpolate ex_frames 12 = \<lparr>frame = 12, props = [(''x'', JNum 100), (''tag'', JStr ''b'')]\<rparr> \<and>
   frame_at (sortFrames ex_frames) (propsToInterpolate (sortFrames ex_frames)) 12 = \<lparr>frame = 12, props = [(''x'', JNum 100), (''tag'', JStr ''b'')]\<rparr>"
proof -
  have ne: "ex_frames \<noteq> []"
    by (simp add: ex_frames_def)
  have lo: "\<forall>k \<in> set ex_frames. 1 < frame k" and hi: "\<forall>k \<in> set ex_frames. frame k < 12"
    by (simp_all add: ex_frames_def)
  have s: "hd (sortFrames ex_frames) = \<lparr>frame = 4, props = [(''x'', JNum 40)]\<rparr>"
    "last (sortFrames ex_frames) = \<lparr>frame = 10, props = [(''x'', JNum 100), (''tag'', JStr ''b'')]\<rparr>"
    by (simp_all add: ex_frames_def sortFrames_def)
  note b1 = boundary_clamp [OF ne, of 1 "propsToInterpolate (sortFrames ex_frames)", THEN conjunct1, THEN mp, OF lo]
  note b2 = boundary_clamp [OF ne, of 12 "propsToInterpolate (sortFrames ex_frames)", THEN conjunct2, THEN conjunct1, THEN mp, OF hi]
  show ?thesis
    using ne lo hi b1 b2 by (simp add: s list_all_iff)
qed

text \<open>
  Claim C5. For the keyframe list \<open>[{frame: 0, x: 0}, {frame: 10, x: 100}]\<close>, resolving at
  target frame 5 yields \<open>x = 50\<close>, and resolving at target frame 3 yields \<open>x = 30\<close>, exactly,
  in double precision arithmetic.
\<close>

theorem interpolate_linear_example:
  "getp (interpolate [\<lparr>frame = 0, props = [(''x'', JNum 0)]\<rparr>,
                      \<lparr>frame = 10, props = [(''x'', JNum 100)]\<rparr>] 5) ''x'' = JNum 50 \<and>
   getp (interpolate [\<lparr>frame = 0, props = [(''x'', JNum 0)]\<rparr>,
                      \<lparr>frame = 10, props = [(''x'', JNum 100)]\<rparr>] 3) ''x'' = JNum 30"
  by code_simp

text \<open>
  Claim C6, as amended. When \<open>loop\<close> is true, the duration is positive and one tick of
  \<open>update\<close> pushes a finite position strictly past the duration, the new position is the
  advanced position modulo the duration and lies in \<open>[0, duration)\<close>; with duration 100
  and 60 frames per second, the position 95 advanced by a delta of 10 becomes 5. The
  remainder is not guarded: with a duration of zero the new position is \<open>NaN\<close>. (As
  stated, with a guard for a zero duration, the claim fails.)
\<close>

theorem loop_wrap:
  "(loop m \<and> 0 < duration m \<and> currentFrame r = Finite c \<and> duration m < c + fps m / 60 * dt \<longrightarrow>
      (\<exists>p. currentFrame (fst (update m r dt)) = Finite p \<and> 0 \<le> p \<and> p < duration m \<and>
           p = (c + fps m / 60 * dt)
               - duration m * of_int \<lfloor>(c + fps m / 60 * dt) / duration m\<rfloor>)) \<and>
   (loop m \<and> duration m = 100 \<and> fps m = 60 \<and> currentFrame r = Finite 95 \<longrightarrow>
      currentFrame (fst (update m r 10)) = Finite 5) \<and>
   (loop m \<and> duration m = 0 \<and> currentFrame r = Finite c \<and> 0 < c + fps m / 60 * dt \<longrightarrow>
      currentFrame (fst (update m r dt)) = NaN)"
proof (intro conjI impI)
  assume a: "loop m \<and> 0 < duration m \<and> currentFrame r = Finite c \<and> duration m < c + fps m / 60 * dt"
  then have u: "currentFrame (fst (update m r dt)) = js_rem (Finite (c + fps m / 60 * dt)) (duration m)"
    by (simp add: update_loop)
  show "\<exists>p. currentFrame (fst (update m r dt)) = Finite p \<and> 0 \<le> p \<and> p < duration m \<and>
           p = (c + fps m / 60 * dt)
               - duration m * of_int \<lfloor>(c + fps m / 60 * dt) / duration m\<rfloor>"
    unfolding u using js_rem_wrap [of "duration m" "c + fps m / 60 * dt"] a by blast
next
  assume a: "loop m \<and> duration m = 100 \<and> fps m = 60 \<and> currentFrame r = Finite 95"
  then have "currentFrame (fst (update m r 10)) = js_rem (Finite (95 + 60 / 60 * 10)) 100"
    using update_loop [of m r 95 10] by simp
  also have "\<dots> = Finite 5"
    by code_simp
  finally show "currentFrame (fst (update m r 10)) = Finite 5" .
next
  assume a: "loop m \<and> duration m = 0 \<and> currentFrame r = Finite c \<and> 0 < c + fps m / 60 * dt"
  then show "currentFrame (fst (update m r dt)) = NaN"
    using update_loop [of m r c dt] by simp
qed

theorem loop_wrap_witness:
  "(loop ex_movie \<and> 0 < duration ex_movie \<and> currentFrame ex_renderer = Finite 95 \<and>
    duration ex_movie < 95 + fps ex_movie / 60 * 10) \<and>
   (loop ex_movie \<and> duration ex_movie = 100 \<and> fps ex_movie = 60 \<and> currentFrame ex_renderer = Finite 95) \<and>
   currentFrame (fst (update ex_movie ex_renderer 10)) = Finite 5 \<and>
   (loop ex_movie_zero \<and> duration ex_movie_zero = 0 \<and> currentFrame ex_renderer = Finite 95 \<and>
    (0::rat) < 95 + fps ex_movie_zero / 60 * 10) \<and>
   currentFrame (fst (update ex_movie_zero ex_renderer 10)) = NaN"
proof -
  have h1: "loop ex_movie \<and> 0 < duration ex_movie \<and> currentFrame ex_renderer = Finite 95 \<and>
    duration ex_movie < 95 + fps ex_movie / 60 * 10"
    by (simp add: ex_movie_def ex_renderer_def)
  have h2: "loop ex_movie \<and> duration ex_movie = 100 \<and> fps ex_movie = 60 \<and> currentFrame ex_renderer = Finite 95"
    by (simp add: ex_movie_def ex_renderer_def)
  have h3: "loop ex_movie_zero \<and> duration ex_movie_zero = 0 \<and> currentFrame ex_renderer = Finite 95 \<and>
    (0::rat) < 95 + fps ex_movie_zero / 60 * 10"
    by (simp add: ex_movie_zero_def ex_renderer_def)
  note w1 = loop_wrap [of ex_movie ex_renderer 95 10, THEN conjunct1, THEN mp, OF h1]
  note w2 = loop_wrap [of ex_movie ex_renderer 95 10, THEN conjunct2, THEN conjunct1, THEN mp, OF h2]
  note w3 = loop_wrap [of ex_movie_zero ex_renderer 95 10, THEN conjunct2, THEN conjunct2, THEN mp, OF h3]
  show ?thesis
    using h1 h2 h3 w1 w2 w3 by blast
qed

theorem loop_wrap_counterexample:
  "loop ex_movie_zero \<and> duration ex_movie_zero = 0 \<and>
   currentFrame (fst (update ex_movie_zero (ex_renderer\<lparr>currentFrame := Finite 0\<rparr>) 1)) = NaN"
  by (simp add: ex_movie_zero_def ex_renderer_def update_def)

text \<open>
  Claim C7. When \<open>loop\<close> is false and one tick of \<open>update\<close> pushes the position past the
  duration, the position is set to the duration and playback is paused: \<open>isPlaying\<close> is
  false and \<open>update\<close> is removed from the ticker. A later tick leaves the state as it is,
  and a later call of \<open>update\<close> never moves the position past the duration.
\<close>

theorem clamp_and_stop:
  assumes "\<not> loop m" "currentFrame r = Finite c" "duration m < c + fps m / 60 * dt"
  shows "currentFrame (fst (update m r dt)) = Finite (duration m) \<and>
         \<not> isPlaying (fst (update m r dt)) \<and> \<not> ticker (fst (update m r dt)) \<and>
         tick m (fst (update m r dt)) dt' = fst (update m r dt) \<and>
         (\<exists>q. currentFrame (fst (update m (fst (update m r dt)) dt')) = Finite q \<and> q \<le> duration m)"
proof -
  have u: "fst (update m r dt) = pause (r\<lparr>currentFrame := Finite (duration m)\<rparr>)"
    using assms by (simp add: update_def Let_def)
  have 1: "currentFrame (fst (update m r dt)) = Finite (duration m)"
    "\<not> isPlaying (fst (update m r dt))" "\<not> ticker (fst (update m r dt))"
    unfolding u by (simp_all add: pause_def)
  have 2: "tick m (fst (update m r dt)) dt' = fst (update m r dt)"
    using 1(3) by (simp add: tick_def)
  have 3: "\<exists>q. currentFrame (fst (update m r' dt')) = Finite q \<and> q \<le> duration m"
    if "currentFrame r' = Finite (duration m)" for r'
    using that assms(1) by (simp add: update_def Let_def pause_def)
  show ?thesis
    using 1 2 3 [OF 1(1)] by simp
qed

theorem clamp_and_stop_witness:
  "\<not> loop ex_movie_once \<and> currentFrame ex_renderer = Finite 95 \<and>
   duration ex_movie_once < 95 + fps ex_movie_once / 60 * 12 \<and>
   fst (update ex_movie_once ex_renderer 12) = \<lparr>isPlaying = False, currentFrame = Finite 100, ticker = False\<rparr> \<and>
   tick ex_movie_once (fst (update ex_movie_once ex_renderer 12)) 12 = fst (update ex_movie_once ex_renderer 12)"
proof -
  have h: "\<not> loop ex_movie_once" "currentFrame ex_renderer = Finite 95"
    "duration ex_movie_once < 95 + fps ex_movie_once / 60 * 12"
    by (simp_all add: ex_movie_once_def ex_renderer_def)
  have v: "fst (update ex_movie_once ex_renderer 12) = \<lparr>isPlaying = False, currentFrame = Finite 100, ticker = False\<rparr>"
    by (simp add: ex_movie_once_def ex_renderer_def update_def pause_def)
  show ?thesis
    using h v clamp_and_stop [OF h, of 12] by simp
qed

text \<open>
  Claim C8. For an audio element with \<open>startFrame = 30\<close> and \<open>endFrame = 60\<close>, rendered
  while playback is in the playing state: at the frames 20 and 70 the media ends up paused,
  with its offset reset to zero if it had been playing; at the frame 45 the media ends up
  playing, and if it is started on that tick its offset is set to \<open>(45 - 30) / fps\<close>
  seconds, for a frame rate other than zero.
\<close>

theorem audio_window:
  assumes "startFrame el = Some 30" "endFrame el = Some 60"
  shows "(fr = 20 \<or> fr = 70 \<longrightarrow>
           (\<exists>item'. renderFrame_audio m True el fr item = Inr item' \<and> paused item' \<and>
              (\<not> paused item \<longrightarrow> currentTime item' = 0))) \<and>
         (fps m \<noteq> 0 \<longrightarrow>
           (\<exists>item'. renderFrame_audio m True el 45 item = Inr item' \<and> \<not> paused item' \<and>
              (paused item \<longrightarrow> currentTime item' = (45 - 30) / fps m)))"
proof (intro conjI impI)
  assume "fr = 20 \<or> fr = 70"
  then have "fr < 30 \<or> 60 \<le> fr"
    by auto
  then show "\<exists>item'. renderFrame_audio m True el fr item = Inr item' \<and> paused item' \<and>
              (\<not> paused item \<longrightarrow> currentTime item' = 0)"
    using renderFrame_audio_outside [OF assms, of fr m True item] by simp
next
  assume "fps m \<noteq> 0"
  then show "\<exists>item'. renderFrame_audio m True el 45 item = Inr item' \<and> \<not> paused item' \<and>
              (paused item \<longrightarrow> currentTime item' = (45 - 30) / fps m)"
    using renderFrame_audio_inside [OF assms, of 45 m item] by simp
qed

theorem audio_window_witness:
  "startFrame ex_audio = Some 30 \<and> endFrame ex_audio = Some 60 \<and> fps ex_movie \<noteq> 0 \<and>
   renderFrame_audio ex_movie True ex_audio 20 (ex_item\<lparr>paused := False, currentTime := 3\<rparr>) = Inr ex_item \<and>
   renderFrame_audio ex_movie True ex_audio 70 ex_item = Inr ex_item \<and>
   renderFrame_audio ex_movie True ex_audio 45 ex_item = Inr \<lparr>paused = False, currentTime = 1 / 4\<rparr>"
proof -
  have h: "startFrame ex_audio = Some 30" "endFrame ex_audio = Some 60"
    by (simp_all add: ex_audio_def)
  have f: "fps ex_movie \<noteq> 0"
    by (simp add: ex_movie_def)
  note a1 = audio_window [OF h, of 20 ex_movie "ex_item\<lparr>paused := False, currentTime := 3\<rparr>", THEN conjunct1]
  note a2 = audio_window [OF h, of 70 ex_movie ex_item, THEN conjunct1]
  note a3 = audio_window [OF h, of _ ex_movie ex_item, THEN conjunct2, THEN mp, OF f]
  have v: "renderFrame_audio ex_movie True ex_audio 20 (ex_item\<lparr>paused := False, currentTime := 3\<rparr>) = Inr ex_item"
    "renderFrame_audio ex_movie True ex_audio 70 ex_item = Inr ex_item"
    "renderFrame_audio ex_movie True ex_audio 45 ex_item = Inr \<lparr>paused = False, currentTime = 1 / 4\<rparr>"
    by (simp_all add: renderFrame_audio_def ex_audio_def ex_movie_def ex_item_def audio_pause_def
        audio_play_def js_div_def)
  show ?thesis
    using h f a1 a2 a3 v by simp
qed

text \<open>
  Claim C9. The eager precomputation is idempotent: a second run of
  \<open>_precalculateFrames\<close>, on the movie whose frame lists the first run has replaced by
  dense tables, gives the same movie as the first run alone.
\<close>

theorem precalculateFrames_idempotent:
  "precalculateFrames (precalculateFrames m) = precalculateFrames m"
  by (simp add: precalculateFrames_def precalculate_element_idem)

text \<open>
  Claim C10. After eager precomputation of an element that is not an audio element and has
  at least one keyframe, with a duration \<open>d \<ge> 0\<close>, the frame list has \<open>\<lfloor>d\<rfloor> + 1\<close> entries,
  the entry at index \<open>i\<close> has the frame \<open>i\<close>, and the exact-frame lookup of \<open>updateFrame\<close>
  finds it, for every \<open>i\<close> from 0 to \<open>\<lfloor>d\<rfloor>\<close>. An audio element and an element without
  keyframes are left as they are.
\<close>

theorem precalculate_dense:
  "(elem_type el \<noteq> AudioType \<and> frames el \<noteq> [] \<and> 0 \<le> d \<longrightarrow>
      length (frames (precalculate_element d el)) = nat \<lfloor>d\<rfloor> + 1 \<and>
      (\<forall>i \<le> nat \<lfloor>d\<rfloor>.
         frame (frames (precalculate_element d el) ! i) = of_nat i \<and>
         lookupFrame (precalculate_element d el) (of_nat i) = Some (frames (precalculate_element d el) ! i))) \<and>
   (elem_type el = AudioType \<or> frames el = [] \<longrightarrow> precalculate_element d el = el)"
proof (intro conjI impI)
  assume "elem_type el = AudioType \<or> frames el = []"
  then show "precalculate_element d el = el"
    by (rule precalculate_element_unchanged)
next
  assume a: "elem_type el \<noteq> AudioType \<and> frames el \<noteq> [] \<and> 0 \<le> d"
  define N where "N = nat (\<lfloor>d\<rfloor> + 1)"
  define g where "g = (\<lambda>i::nat. frame_at (sortFrames (frames el)) (propsToInterpolate (sortFrames (frames el))) (of_nat i))"
  have g: "\<And>i. i < N \<Longrightarrow> frame (g i) = of_nat i"
    by (simp add: g_def frame_frame_at)
  have 1: "precalculate_element d el = el\<lparr>frames := map g [0..<N]\<rparr>"
    using a by (simp add: precalculate_element_frames g_def N_def)
  have N: "N = nat \<lfloor>d\<rfloor> + 1"
    using a by (simp add: N_def nat_add_distrib)
  show "length (frames (precalculate_element d el)) = nat \<lfloor>d\<rfloor> + 1"
    unfolding 1 by (simp add: N)
  show "\<forall>i \<le> nat \<lfloor>d\<rfloor>.
         frame (frames (precalculate_element d el) ! i) = of_nat i \<and>
         lookupFrame (precalculate_element d el) (of_nat i) = Some (frames (precalculate_element d el) ! i)"
  proof (intro allI impI)
    fix i assume "i \<le> nat \<lfloor>d\<rfloor>"
    then have i: "i < N" by (simp add: N)
    show "frame (frames (precalculate_element d el) ! i) = of_nat i \<and>
         lookupFrame (precalculate_element d el) (of_nat i) = Some (frames (precalculate_element d el) ! i)"
      unfolding 1 using i g find_dense [OF g i] by (simp add: lookupFrame_def)
  qed
qed

theorem precalculate_dense_witness:
  "(elem_type ex_image \<noteq> AudioType \<and> frames ex_image \<noteq> [] \<and> (0::rat) \<le> 2) \<and>
   length (frames (precalculate_element 2 ex_image)) = 3 \<and>
   frame (frames (precalculate_element 2 ex_image) ! 1) = 1 \<and>
   lookupFrame (precalculate_element 2 ex_image) 2 = Some (frames (precalculate_element 2 ex_image) ! 2) \<and>
   elem_type ex_audio = AudioType \<and>
   precalculate_element 2 ex_audio = ex_audio"
proof -
  have h: "elem_type ex_image \<noteq> AudioType \<and> frames ex_image \<noteq> [] \<and> (0::rat) \<le> 2"
    by (simp add: ex_image_def)
  have a: "elem_type ex_audio = AudioType"
    by (simp add: ex_audio_def)
  note d = precalculate_dense [of ex_image 2, THEN conjunct1, rule_format, OF h]
  note u = precalculate_dense [of ex_audio 2, THEN conjunct2, rule_format, OF disjI1, OF a]
  have 1: "frame (frames (precalculate_element 2 ex_image) ! 1) = 1"
    using d [THEN conjunct2, rule_format, of 1] by simp
  have 2: "lookupFrame (precalculate_element 2 ex_image) 2 = Some (frames (precalculate_element 2 ex_image) ! 2)"
    using d [THEN conjunct2, rule_format, of 2] by simp
  show ?thesis
    using h a u d [THEN conjunct1] 1 2 by simp
qed

end
